theory Spec2Isabelle
  imports Complex_Main "HOL-Library.Multiset" "HOL-Library.Option_ord"
begin

section \<open>Data model of scheduler.py\<close>

text \<open>
  Python integers are unbounded, so every time value is an \<open>int\<close>. The attributes that
  \<open>process.__init__\<close> initialises with \<open>None\<close> are options. A Python list of process
  objects is a list of records: the schedulers keep every object in exactly one of their
  lists (or in the local variable \<open>process\<close>) at a time, so, for an input list of distinct
  objects, mutating an object is replacing its record in the one list that holds it.
\<close>

datatype error = TypeError | ValueError | ZeroDivisionError

record process =
  name :: string
  arrival_time :: int
  burst_time :: int
  deadline :: int
  start_time :: "int option"
  end_time :: "int option"
  remaining_time :: int
  waiting_time :: "int option"
  response_time :: "int option"
  turnaround_time :: "int option"
  status :: "string option"

text \<open>\<open>process.__init__\<close> (lines 12-36).\<close>

definition process_init :: "string \<Rightarrow> int \<Rightarrow> int \<Rightarrow> int \<Rightarrow> process" where
  "process_init n a b d =
     \<lparr>name = n, arrival_time = a, burst_time = b, deadline = d,
      start_time = None, end_time = None, remaining_time = b,
      waiting_time = None, response_time = None, turnaround_time = None,
      status = None\<rparr>"

text \<open>A process as the constructor leaves it: no scheduler has touched it yet.\<close>

definition fresh :: "process \<Rightarrow> bool" where
  "fresh p \<longleftrightarrow>
     p = process_init (name p) (arrival_time p) (burst_time p) (deadline p)"

text \<open>The four constructor arguments of a process, which no function of the file mutates.\<close>

definition descriptor :: "process \<Rightarrow> string \<times> int \<times> int \<times> int" where
  "descriptor p = (name p, arrival_time p, burst_time p, deadline p)"

section \<open>update_ready_queue (lines 214-226)\<close>

text \<open>
  \<open>processes.remove(process)\<close> removes the first element equal to \<open>process\<close>; the class
  defines no \<open>__eq__\<close>, so equality is object identity, and in a list of distinct objects the
  element removed is the one the iterator has just yielded, at index \<open>i\<close>.
\<close>

definition remove_at :: "nat \<Rightarrow> 'a list \<Rightarrow> 'a list" where
  "remove_at i xs = take i xs @ drop (Suc i) xs"

text \<open>
  The \<open>for\<close> loop of \<open>update_ready_queue\<close>. Python's list iterator holds an index into the
  live list: it yields \<open>processes[i]\<close> while \<open>i < len(processes)\<close> and then increments \<open>i\<close>,
  whether or not the body has removed an element in between.
\<close>

function admit_from ::
  "int \<Rightarrow> nat \<Rightarrow> process list \<Rightarrow> process list \<Rightarrow> process list \<times> process list" where
  "admit_from current_time i processes ready_queue =
     (if i < length processes then
        (let p = processes ! i in
         if arrival_time p \<le> current_time
         then admit_from current_time (Suc i) (remove_at i processes) (ready_queue @ [p])
         else admit_from current_time (Suc i) processes ready_queue)
      else (processes, ready_queue))"
  by pat_completeness auto
termination
  by (relation "measure (\<lambda>(t, i, ps, rq). length ps - i)") (auto simp: remove_at_def)

declare admit_from.simps [simp del]

text \<open>
  The global \<open>current_time\<close> that the function reads is its first argument here; the two
  lists it mutates are returned.
\<close>

definition update_ready_queue ::
  "int \<Rightarrow> process list \<Rightarrow> process list \<Rightarrow> process list \<times> process list" where
  "update_ready_queue current_time processes ready_queue =
     admit_from current_time 0 processes ready_queue"

section \<open>check_status (lines 229-240)\<close>

text \<open>
  Comparing \<open>None\<close> with an integer raises \<open>TypeError\<close>; \<open>edf\<close> calls the function only
  right after it has assigned \<open>end_time\<close>.
\<close>

definition check_status :: "process \<Rightarrow> error + process" where
  "check_status p =
     (case end_time p of
        None \<Rightarrow> Inl TypeError
      | Some e \<Rightarrow>
          if e \<le> deadline p then Inr (p\<lparr>status := Some ''S''\<rparr>)
          else Inr (p\<lparr>status := Some ''F''\<rparr>))"

section \<open>calculate_metrics (lines 180-211)\<close>

text \<open>
  The metrics are Python floats. Their arithmetic is not modelled: the four float
  operations that the function uses are parameters, over an arbitrary type \<open>'f\<close> of floats.
  Division by zero is decided on the integer operands before \<open>truediv\<close> is applied.
\<close>

record 'f float_ops =
  truediv :: "int \<Rightarrow> int \<Rightarrow> 'f"
  round2 :: "'f \<Rightarrow> 'f"
  times100 :: "'f \<Rightarrow> 'f"
  float_gt :: "'f \<Rightarrow> 'f \<Rightarrow> bool"

text \<open>A component of the returned tuple: the \<open>else 0\<close> branches yield the integer 0.\<close>

datatype 'f number = PyInt int | PyFloat 'f

type_synonym 'f metrics =
  "'f number \<times> 'f number \<times> 'f number \<times> 'f number \<times> 'f number \<times> 'f number"

text \<open>
  \<open>max(cpu, key=lambda p: p.end_time).end_time\<close> (line 192): \<open>ValueError\<close> on the empty
  list; each further element is compared with the best so far, and a comparison that
  involves \<open>None\<close> raises \<open>TypeError\<close>; the first of several maximal elements is kept.
\<close>

fun max_end_time_from :: "int option \<Rightarrow> process list \<Rightarrow> error + int option" where
  "max_end_time_from best [] = Inr best"
| "max_end_time_from best (p # ps) =
     (case (end_time p, best) of
        (Some e, Some b) \<Rightarrow> max_end_time_from (Some (if e > b then e else b)) ps
      | _ \<Rightarrow> Inl TypeError)"

fun max_end_time :: "process list \<Rightarrow> error + int option" where
  "max_end_time [] = Inl ValueError"
| "max_end_time (p # ps) = max_end_time_from (end_time p) ps"

text \<open>
  The loop of lines 194-196: it mutates the processes in order and stops at the first one
  whose \<open>end_time\<close> is \<open>None\<close>, where the subtraction raises \<open>TypeError\<close>.
\<close>

fun set_times :: "process list \<Rightarrow> process list \<times> error option" where
  "set_times [] = ([], None)"
| "set_times (p # ps) =
     (case end_time p of
        None \<Rightarrow> (p # ps, Some TypeError)
      | Some e \<Rightarrow>
          (let p' = p\<lparr>turnaround_time := Some (e - arrival_time p),
                      waiting_time := Some (e - arrival_time p - burst_time p)\<rparr>
           in case set_times ps of (ps', r) \<Rightarrow> (p' # ps', r)))"

text \<open>\<open>sum([...])\<close> over an attribute that may be \<open>None\<close>: \<open>0 + None\<close> raises \<open>TypeError\<close>.\<close>

fun sum_opt :: "int option list \<Rightarrow> error + int" where
  "sum_opt [] = Inr 0"
| "sum_opt (None # xs) = Inl TypeError"
| "sum_opt (Some x # xs) = (case sum_opt xs of Inl e \<Rightarrow> Inl e | Inr t \<Rightarrow> Inr (x + t))"

text \<open>
  \<open>max(round(process.turnaround_time / process.burst_time, 2) for process in cpu)\<close>
  (line 209), on a non-empty list.
\<close>

definition stretch :: "'f float_ops \<Rightarrow> process \<Rightarrow> error + 'f" where
  "stretch fl p =
     (case turnaround_time p of
        None \<Rightarrow> Inl TypeError
      | Some t \<Rightarrow>
          if burst_time p = 0 then Inl ZeroDivisionError
          else Inr (round2 fl (truediv fl t (burst_time p))))"

fun max_stretch_from :: "'f float_ops \<Rightarrow> 'f \<Rightarrow> process list \<Rightarrow> error + 'f" where
  "max_stretch_from fl best [] = Inr best"
| "max_stretch_from fl best (p # ps) =
     (case stretch fl p of
        Inl e \<Rightarrow> Inl e
      | Inr x \<Rightarrow> max_stretch_from fl (if float_gt fl x best then x else best) ps)"

fun max_stretch :: "'f float_ops \<Rightarrow> process list \<Rightarrow> error + 'f" where
  "max_stretch fl [] = Inl ValueError"
| "max_stretch fl (p # ps) =
     (case stretch fl p of Inl e \<Rightarrow> Inl e | Inr x \<Rightarrow> max_stretch_from fl x ps)"

text \<open>
  The statements after the loop (lines 198-211), on the mutated list: the result is the
  returned tuple or the exception raised.
\<close>

definition aggregate ::
  "'f float_ops \<Rightarrow> int \<Rightarrow> int option \<Rightarrow> process list \<Rightarrow> error + 'f metrics" where
  "aggregate fl total_processes total_time cpu =
     (case sum_opt (map waiting_time cpu) of
        Inl e \<Rightarrow> Inl e
      | Inr total_waiting_time \<Rightarrow>
     (case sum_opt (map turnaround_time cpu) of
        Inl e \<Rightarrow> Inl e
      | Inr total_turnaround_time \<Rightarrow>
     (case sum_opt (map response_time cpu) of
        Inl e \<Rightarrow> Inl e
      | Inr total_response_time \<Rightarrow>
     (let total_burst_time = sum_list (map burst_time cpu);
          awt = (if total_processes > 0
                 then PyFloat (round2 fl (truediv fl total_waiting_time total_processes))
                 else PyInt 0);
          art = (if total_processes > 0
                 then PyFloat (round2 fl (truediv fl total_response_time total_processes))
                 else PyInt 0);
          att = (if total_processes > 0
                 then PyFloat (round2 fl (truediv fl total_turnaround_time total_processes))
                 else PyInt 0)
      in (case total_time of
            None \<Rightarrow> Inl TypeError
          | Some tt \<Rightarrow>
              (if tt = 0 then Inl ZeroDivisionError
               else
                 (let throughput = PyFloat (round2 fl (truediv fl total_processes tt));
                      utilization =
                        PyFloat (round2 fl (times100 fl (truediv fl total_burst_time tt)))
                  in (case max_stretch fl cpu of
                        Inl e \<Rightarrow> Inl e
                      | Inr proportionality \<Rightarrow>
                          Inr (awt, art, att, throughput, utilization,
                               PyFloat proportionality)))))))))"

text \<open>
  The call \<open>calculate_metrics(cpu)\<close>: the list as the call leaves it (the records are
  mutated in place), and the returned tuple or the exception raised.
\<close>

definition calculate_metrics ::
  "'f float_ops \<Rightarrow> process list \<Rightarrow> process list \<times> (error + 'f metrics)" where
  "calculate_metrics fl cpu =
     (let total_processes = int (length cpu) in
      case max_end_time cpu of
        Inl e \<Rightarrow> (cpu, Inl e)
      | Inr total_time \<Rightarrow>
          (case set_times cpu of
             (cpu', Some e) \<Rightarrow> (cpu', Inl e)
           | (cpu', None) \<Rightarrow> (cpu', aggregate fl total_processes total_time cpu')))"

section \<open>The simulation state shared by rr and edf\<close>

text \<open>
  The variables of one scheduler call: the global \<open>current_time\<close>, the caller's list
  \<open>processes\<close> (mutated in place), and the locals \<open>ready_queue\<close> and \<open>cpu\<close>. The field
  \<open>timeline\<close> is a history variable that the source does not have and that no definition
  reads: at every \<open>current_time += 1\<close> it records the name of the process that was run
  during that unit of time, or \<open>None\<close> when the CPU was idle.
\<close>

record sim =
  current_time :: int
  processes :: "process list"
  ready_queue :: "process list"
  cpu :: "process list"
  timeline :: "string option list"

text \<open>The statement \<open>update_ready_queue(processes, ready_queue)\<close> inside a scheduler.\<close>

definition admit :: "sim \<Rightarrow> sim" where
  "admit s =
     (case update_ready_queue (current_time s) (processes s) (ready_queue s) of
        (ps, rq) \<Rightarrow> s\<lparr>processes := ps, ready_queue := rq\<rparr>)"

text \<open>The statement \<open>current_time += 1\<close>.\<close>

definition tick :: "string option \<Rightarrow> sim \<Rightarrow> sim" where
  "tick who s = s\<lparr>current_time := current_time s + 1, timeline := timeline s @ [who]\<rparr>"

text \<open>First dispatch (lines 104-106 and 160-162).\<close>

definition dispatch :: "int \<Rightarrow> process \<Rightarrow> process" where
  "dispatch now p =
     (if response_time p = None
      then p\<lparr>response_time := Some (now - arrival_time p), start_time := Some now\<rparr>
      else p)"

text \<open>The loop \<open>while processes or ready_queue\<close>, common to both schedulers; the result is
  \<open>None\<close> when the loop runs forever.\<close>

partial_function (option) sim_loop :: "(sim \<Rightarrow> sim) \<Rightarrow> sim \<Rightarrow> sim option" where
  "sim_loop body s =
     (if processes s \<noteq> [] \<or> ready_queue s \<noteq> [] then sim_loop body (body s) else Some s)"

declare sim_loop.simps [code]

text \<open>
  \<open>sorted(cpu, key=lambda p: p.start_time)\<close>: a stable sort. With two or more elements every
  key takes part in a comparison, and a comparison with \<open>None\<close> raises \<open>TypeError\<close>.
\<close>

definition sorted_by_start_time :: "process list \<Rightarrow> error + process list" where
  "sorted_by_start_time xs =
     (if 2 \<le> length xs \<and> None \<in> set (map start_time xs) then Inl TypeError
      else Inr (sort_key start_time xs))"

definition initial :: "process list \<Rightarrow> sim" where
  "initial ps =
     \<lparr>current_time = 0, processes = sort_key arrival_time ps, ready_queue = [], cpu = [],
      timeline = []\<rparr>"

section \<open>rr (lines 75-125)\<close>

text \<open>The inner loop \<open>while running_time > 0\<close> (lines 111-115).\<close>

function run_slice :: "int \<Rightarrow> process \<Rightarrow> sim \<Rightarrow> process \<times> sim" where
  "run_slice running_time p s =
     (if running_time > 0
      then run_slice (running_time - 1) (p\<lparr>remaining_time := remaining_time p - 1\<rparr>)
             (admit (tick (Some (name p)) s))
      else (p, s))"
  by pat_completeness auto
termination
  by (relation "measure (\<lambda>(r, p, s). nat r)") auto

declare run_slice.simps [simp del]

text \<open>One iteration of the outer loop (lines 96-123).\<close>

definition rr_iter :: "int \<Rightarrow> sim \<Rightarrow> sim" where
  "rr_iter quantum s =
     (let s1 = admit s in
      if ready_queue s1 = [] then tick None s1
      else
        (let p1 = dispatch (current_time s1) (hd (ready_queue s1));
             s2 = s1\<lparr>ready_queue := tl (ready_queue s1)\<rparr>
         in case run_slice (min quantum (remaining_time p1)) p1 s2 of
              (p2, s3) \<Rightarrow>
                if remaining_time p2 = 0
                then s3\<lparr>cpu := cpu s3 @
                          [p2\<lparr>end_time := Some (current_time s3), status := Some ''S''\<rparr>]\<rparr>
                else (let s4 = admit s3 in s4\<lparr>ready_queue := ready_queue s4 @ [p2]\<rparr>)))"

text \<open>The final state of the call, \<open>None\<close> when the loop does not end.\<close>

definition rr_sim :: "process list \<Rightarrow> int \<Rightarrow> sim option" where
  "rr_sim ps quantum = sim_loop (rr_iter quantum) (initial ps)"

text \<open>
  The call \<open>rr(processes, quantum)\<close>: \<open>None\<close> when it does not return, otherwise the caller's
  list as the call leaves it, and the returned list or the exception raised by \<open>sorted\<close>.
\<close>

definition rr :: "process list \<Rightarrow> int \<Rightarrow> (process list \<times> (error + process list)) option" where
  "rr ps quantum =
     map_option (\<lambda>s. (processes s, sorted_by_start_time (cpu s))) (rr_sim ps quantum)"

section \<open>edf (lines 128-177)\<close>

text \<open>
  One iteration of the loop (lines 149-175). \<open>check_status\<close> is called on a process whose
  \<open>end_time\<close> has just been set, so its \<open>TypeError\<close> branch cannot be taken here.
\<close>

definition edf_iter :: "sim \<Rightarrow> sim" where
  "edf_iter s =
     (let s1 = admit s in
      if ready_queue s1 = [] then tick None s1
      else
        (let rq = sort_key deadline (ready_queue s1);
             p1 = dispatch (current_time s1) (hd rq);
             s2 = s1\<lparr>ready_queue := tl rq\<rparr>;
             p2 = p1\<lparr>remaining_time := remaining_time p1 - 1\<rparr>;
             s3 = admit (tick (Some (name p2)) s2)
         in if remaining_time p2 = 0
            then (case check_status (p2\<lparr>end_time := Some (current_time s3)\<rparr>) of
                    Inr p3 \<Rightarrow> s3\<lparr>cpu := cpu s3 @ [p3]\<rparr>
                  | Inl e \<Rightarrow> s3)
            else (let s4 = admit s3 in s4\<lparr>ready_queue := ready_queue s4 @ [p2]\<rparr>)))"

definition edf_sim :: "process list \<Rightarrow> sim option" where
  "edf_sim ps = sim_loop edf_iter (initial ps)"

definition edf :: "process list \<Rightarrow> (process list \<times> (error + process list)) option" where
  "edf ps = map_option (\<lambda>s. (processes s, sorted_by_start_time (cpu s))) (edf_sim ps)"

section \<open>Auxiliary definitions for the statements\<close>

text \<open>
  An instance of the float operations in exact rational arithmetic, with rounding to two
  decimals; it only serves to run \<open>calculate_metrics\<close> on examples.
\<close>

definition exact_ops :: "rat float_ops" where
  "exact_ops =
     \<lparr>truediv = (\<lambda>a b. of_int a / of_int b),
      round2 = (\<lambda>x. of_int (round (x * 100)) / 100),
      times100 = (\<lambda>x. x * 100),
      float_gt = (\<lambda>x y. y < x)\<rparr>"

text \<open>Both processes have been dispatched, and the first one not later than the second.\<close>

definition starts_before :: "process \<Rightarrow> process \<Rightarrow> bool" where
  "starts_before p q =
     (case (start_time p, start_time q) of (Some a, Some b) \<Rightarrow> a \<le> b | _ \<Rightarrow> False)"

text \<open>
  The population of a scheduler state: the descriptors of all processes it holds, in the
  pool, the ready queue, the local variable \<open>process\<close> (the list \<open>run\<close>, empty or a
  singleton) and the completed list.
\<close>

definition population :: "process list \<Rightarrow> sim \<Rightarrow> (string \<times> int \<times> int \<times> int) multiset" where
  "population run s =
     mset (map descriptor (processes s @ ready_queue s @ run @ cpu s))"

text \<open>
  A process that has been admitted, at time \<open>t\<close>: if it has been dispatched, the time
  since its start covers the units it has executed.
\<close>

definition live :: "int \<Rightarrow> process \<Rightarrow> bool" where
  "live t p \<longleftrightarrow>
     arrival_time p \<le> t \<and> 0 \<le> remaining_time p \<and> remaining_time p \<le> burst_time p \<and>
     (case response_time p of
        None \<Rightarrow> remaining_time p = burst_time p \<and> start_time p = None
      | Some r \<Rightarrow>
          (case start_time p of
             None \<Rightarrow> False
           | Some st \<Rightarrow>
               r = st - arrival_time p \<and> 0 \<le> st \<and> arrival_time p \<le> st \<and>
               st + (burst_time p - remaining_time p) \<le> t))"

text \<open>A process still in the pending pool.\<close>

definition pooled :: "process \<Rightarrow> bool" where
  "pooled p \<longleftrightarrow> fresh p \<and> 0 < burst_time p"

text \<open>A process in the ready queue.\<close>

definition queued :: "int \<Rightarrow> process \<Rightarrow> bool" where
  "queued t p \<longleftrightarrow> live t p \<and> 0 < remaining_time p"

text \<open>A process in the completed list.\<close>

definition finished :: "int \<Rightarrow> process \<Rightarrow> bool" where
  "finished t p \<longleftrightarrow>
     remaining_time p = 0 \<and> response_time p \<noteq> None \<and> status p \<noteq> None \<and>
     (case (start_time p, end_time p) of
        (Some st, Some e) \<Rightarrow>
          0 \<le> st \<and> arrival_time p \<le> st \<and> 0 \<le> burst_time p \<and>
          st + burst_time p \<le> e \<and> e \<le> t
      | _ \<Rightarrow> False)"

text \<open>The invariant of both simulation loops, between two statements of an iteration.\<close>

definition good :: "process list \<Rightarrow> sim \<Rightarrow> bool" where
  "good run s \<longleftrightarrow>
     0 \<le> current_time s \<and>
     (\<forall>p\<in>set (processes s). pooled p) \<and>
     (\<forall>p\<in>set (ready_queue s). queued (current_time s) p) \<and>
     (\<forall>p\<in>set run. live (current_time s) p) \<and>
     (\<forall>p\<in>set (cpu s). finished (current_time s) p)"

text \<open>
  A predicate on states that every statement of which the two loop bodies are composed
  preserves, given \<open>good\<close>: admission, an idle unit, taking a process from the ready
  queue, first dispatch, one unit of execution, completion, and re-insertion.
\<close>

definition step_closed :: "(process list \<Rightarrow> sim \<Rightarrow> bool) \<Rightarrow> bool" where
  "step_closed I \<longleftrightarrow>
     (\<forall>run s. good run s \<longrightarrow> I run s \<longrightarrow> I run (admit s)) \<and>
     (\<forall>s. good [] s \<longrightarrow> I [] s \<longrightarrow> ready_queue s = [] \<longrightarrow> processes s \<noteq> [] \<longrightarrow>
        current_time s < arrival_time (hd (processes s)) \<longrightarrow> I [] (tick None s)) \<and>
     (\<forall>s p rest. good [] s \<longrightarrow> I [] s \<longrightarrow> mset (p # rest) = mset (ready_queue s) \<longrightarrow>
        I [p] (s\<lparr>ready_queue := rest\<rparr>)) \<and>
     (\<forall>s p. good [p] s \<longrightarrow> I [p] s \<longrightarrow> I [dispatch (current_time s) p] s) \<and>
     (\<forall>s p. good [p] s \<longrightarrow> I [p] s \<longrightarrow> response_time p \<noteq> None \<longrightarrow> 0 < remaining_time p \<longrightarrow>
        I [p\<lparr>remaining_time := remaining_time p - 1\<rparr>] (tick (Some (name p)) s)) \<and>
     (\<forall>s p x. good [p] s \<longrightarrow> I [p] s \<longrightarrow> response_time p \<noteq> None \<longrightarrow> remaining_time p = 0 \<longrightarrow>
        I [] (s\<lparr>cpu := cpu s @ [p\<lparr>end_time := Some (current_time s), status := Some x\<rparr>]\<rparr>)) \<and>
     (\<forall>s p. good [p] s \<longrightarrow> I [p] s \<longrightarrow> response_time p \<noteq> None \<longrightarrow> 0 < remaining_time p \<longrightarrow>
        I [] (s\<lparr>ready_queue := ready_queue s @ [p]\<rparr>))"

text \<open>The CPU time that a list of processes still needs.\<close>

definition work :: "process list \<Rightarrow> int" where
  "work xs = sum_list (map remaining_time xs)"

text \<open>
  The clock is bounded: pending work and elapsed time together never exceed the latest
  arrival \<open>A\<close> plus the total burst time \<open>B\<close>.
\<close>

definition bounded :: "int \<Rightarrow> int \<Rightarrow> process list \<Rightarrow> sim \<Rightarrow> bool" where
  "bounded A B run s \<longleftrightarrow>
     (\<forall>p\<in>set (processes s). arrival_time p \<le> A) \<and>
     work (processes s @ ready_queue s @ run) \<le> B \<and>
     current_time s + work (processes s @ ready_queue s @ run) \<le> A + B"

text \<open>The status that \<open>check_status\<close> gives a completed process.\<close>

definition judged :: "process \<Rightarrow> bool" where
  "judged p \<longleftrightarrow>
     (case end_time p of
        None \<Rightarrow> False
      | Some e \<Rightarrow> status p = Some (if e \<le> deadline p then ''S'' else ''F''))"

text \<open>The part of a list between the positions \<open>a\<close> (included) and \<open>b\<close> (excluded).\<close>

definition slice :: "'a list \<Rightarrow> int \<Rightarrow> int \<Rightarrow> 'a list" where
  "slice xs a b = take (nat (b - a)) (drop (nat a) xs)"

text \<open>
  A completed process that was never preempted: during every unit of time from its
  \<open>start_time\<close> to its \<open>end_time\<close> the CPU ran this process, by the history \<open>hist\<close> of
  the run. Processes are told apart by their names.
\<close>

definition uninterrupted :: "string option list \<Rightarrow> process \<Rightarrow> bool" where
  "uninterrupted hist p \<longleftrightarrow>
     (case (start_time p, end_time p) of
        (Some st, Some e) \<Rightarrow> list_all (\<lambda>x. x = Some (name p)) (slice hist st e)
      | _ \<Rightarrow> False)"

text \<open>
  The history agrees with a process that has not completed: it holds one entry for each
  unit the process has executed, none of them before its \<open>start_time\<close>.
\<close>

definition tracked :: "string option list \<Rightarrow> process \<Rightarrow> bool" where
  "tracked hist p \<longleftrightarrow>
     count_list hist (Some (name p)) = nat (burst_time p - remaining_time p) \<and>
     (case start_time p of
        None \<Rightarrow> True
      | Some st \<Rightarrow> Some (name p) \<notin> set (take (nat st) hist))"

text \<open>
  The history agrees with a completed process: between its \<open>start_time\<close> and its
  \<open>end_time\<close> it holds one entry for each unit of its \<open>burst_time\<close>.
\<close>

definition recorded :: "string option list \<Rightarrow> process \<Rightarrow> bool" where
  "recorded hist p \<longleftrightarrow>
     (case (start_time p, end_time p) of
        (Some st, Some e) \<Rightarrow> count_list (slice hist st e) (Some (name p)) = nat (burst_time p)
      | _ \<Rightarrow> False)"

text \<open>The invariant that ties the history to the processes, when names are distinct.\<close>

definition traced :: "process list \<Rightarrow> sim \<Rightarrow> bool" where
  "traced run s \<longleftrightarrow>
     length (timeline s) = nat (current_time s) \<and>
     distinct (map name (processes s @ ready_queue s @ run @ cpu s)) \<and>
     (\<forall>p\<in>set (processes s @ ready_queue s @ run). tracked (timeline s) p) \<and>
     (\<forall>p\<in>set (cpu s). recorded (timeline s) p)"

section \<open>Admission into the ready queue\<close>

text \<open>
  C1. The claim is that one call of \<open>update_ready_queue\<close> moves every process that has
  arrived. The function removes from the list it is iterating over, so the element that
  follows an admitted one is skipped: with two processes that have both arrived at time 0,
  the call admits the first and leaves the second in the pool.
\<close>

theorem update_ready_queue_skips:
  "update_ready_queue 0 [process_init ''A'' 0 1 5, process_init ''B'' 0 1 5] [] =
     ([process_init ''B'' 0 1 5], [process_init ''A'' 0 1 5])"
  by code_simp

section \<open>Metrics\<close>

lemma max_end_time_from_cong:
  "map end_time xs = map end_time ys \<Longrightarrow> max_end_time_from b xs = max_end_time_from b ys"
proof (induction xs arbitrary: ys b)
  case Nil
  then show ?case by simp
next
  case (Cons x xs)
  then obtain y ys' where ys: "ys = y # ys'" by (cases ys) auto
  with Cons.prems have e: "end_time x = end_time y" "map end_time xs = map end_time ys'"
    by auto
  show ?case using Cons.IH[OF e(2)] e(1) ys
    by (simp split: option.splits)
qed

lemma max_end_time_cong:
  "map end_time xs = map end_time ys \<Longrightarrow> max_end_time xs = max_end_time ys"
  by (cases xs; cases ys) (auto intro: max_end_time_from_cong)

lemma set_times_ok:
  "set_times xs = (ys, None) \<Longrightarrow>
     length ys = length xs \<and> map end_time ys = map end_time xs \<and>
     set_times ys = (ys, None) \<and>
     (\<forall>p\<in>set ys. \<exists>e. end_time p = Some e \<and>
         turnaround_time p = Some (e - arrival_time p) \<and>
         waiting_time p = Some (e - arrival_time p - burst_time p))"
proof (induction xs arbitrary: ys)
  case Nil
  then show ?case by simp
next
  case (Cons p ps)
  then show ?case
    by (auto split: option.splits prod.splits simp: Let_def)
qed

lemma calculate_metrics_Inr:
  assumes "calculate_metrics fl xs = (ys, Inr m)"
  shows "\<exists>tt. max_end_time xs = Inr tt \<and> set_times xs = (ys, None) \<and>
           aggregate fl (int (length xs)) tt ys = Inr m"
  using assms
  by (auto simp: calculate_metrics_def Let_def split: sum.splits prod.splits option.splits)

text \<open>
  C2. On the empty list \<open>calculate_metrics\<close> raises: \<open>max\<close> of an empty sequence is a
  \<open>ValueError\<close>, before any metric is computed. No tuple is returned.
\<close>

theorem calculate_metrics_empty:
  "calculate_metrics fl [] = ([], Inl ValueError)"
  by (simp add: calculate_metrics_def)

text \<open>
  C7. When \<open>calculate_metrics\<close> returns a tuple, every process of the list has
  \<open>turnaround_time = end_time - arrival_time\<close> and
  \<open>turnaround_time = waiting_time + burst_time\<close>.
\<close>

theorem metrics_conservation:
  assumes "calculate_metrics fl xs = (ys, Inr m)" and "p \<in> set ys"
  shows "\<exists>e ta w. end_time p = Some e \<and> turnaround_time p = Some ta \<and>
           waiting_time p = Some w \<and> ta = w + burst_time p \<and> ta = e - arrival_time p"
proof -
  from calculate_metrics_Inr[OF assms(1)] have "set_times xs = (ys, None)" by blast
  from set_times_ok[OF this] assms(2) show ?thesis by fastforce
qed

theorem metrics_conservation_witness:
  "calculate_metrics exact_ops
     [process_init ''P'' 1 5 10
        \<lparr>start_time := Some 1, end_time := Some 8, remaining_time := 0,
         response_time := Some 0, status := Some ''S''\<rparr>] =
     ([process_init ''P'' 1 5 10
        \<lparr>start_time := Some 1, end_time := Some 8, remaining_time := 0,
         response_time := Some 0, status := Some ''S'', turnaround_time := Some 7,
         waiting_time := Some 2\<rparr>],
      Inr (PyFloat 2, PyFloat 0, PyFloat 7, PyFloat (13 / 100), PyFloat (125 / 2),
           PyFloat (7 / 5)))
   \<and> (\<exists>e ta w. Some 8 = Some e \<and> Some 7 = Some ta \<and> Some 2 = Some w \<and>
          ta = w + (5::int) \<and> ta = e - 1)"
proof -
  have h: "calculate_metrics exact_ops
     [process_init ''P'' 1 5 10
        \<lparr>start_time := Some 1, end_time := Some 8, remaining_time := 0,
         response_time := Some 0, status := Some ''S''\<rparr>] =
     ([process_init ''P'' 1 5 10
        \<lparr>start_time := Some 1, end_time := Some 8, remaining_time := 0,
         response_time := Some 0, status := Some ''S'', turnaround_time := Some 7,
         waiting_time := Some 2\<rparr>],
      Inr (PyFloat 2, PyFloat 0, PyFloat 7, PyFloat (13 / 100), PyFloat (125 / 2),
           PyFloat (7 / 5)))"
    by code_simp
  from metrics_conservation[OF h, of "process_init ''P'' 1 5 10
        \<lparr>start_time := Some 1, end_time := Some 8, remaining_time := 0,
         response_time := Some 0, status := Some ''S'', turnaround_time := Some 7,
         waiting_time := Some 2\<rparr>"]
  show ?thesis using h by (simp add: process_init_def)
qed

text \<open>
  C9. A second call of \<open>calculate_metrics\<close> on the list that a first, successful call has
  left returns the same tuple (and leaves the list as it is): the first call only writes
  \<open>turnaround_time\<close> and \<open>waiting_time\<close>, which the second call recomputes from fields
  that the first call has not changed.
\<close>

theorem metrics_idempotent:
  assumes "calculate_metrics fl xs = (ys, Inr m)"
  shows "calculate_metrics fl ys = (ys, Inr m)"
proof -
  from calculate_metrics_Inr[OF assms] obtain tt where
    a: "max_end_time xs = Inr tt" and b: "set_times xs = (ys, None)"
    and c: "aggregate fl (int (length xs)) tt ys = Inr m" by blast
  from set_times_ok[OF b] have
    l: "length ys = length xs" and e: "map end_time ys = map end_time xs"
    and s: "set_times ys = (ys, None)" by auto
  from max_end_time_cong[OF e] a have "max_end_time ys = Inr tt" by simp
  with s c l show ?thesis by (simp add: calculate_metrics_def)
qed

theorem metrics_idempotent_witness:
  "calculate_metrics exact_ops
     [process_init ''P1'' 0 4 10
        \<lparr>start_time := Some 0, end_time := Some 6, remaining_time := 0,
         response_time := Some 0, status := Some ''S''\<rparr>,
      process_init ''P2'' 1 2 3
        \<lparr>start_time := Some 2, end_time := Some 4, remaining_time := 0,
         response_time := Some 1, status := Some ''S''\<rparr>] =
     ([process_init ''P1'' 0 4 10
        \<lparr>start_time := Some 0, end_time := Some 6, remaining_time := 0,
         response_time := Some 0, status := Some ''S'', turnaround_time := Some 6,
         waiting_time := Some 2\<rparr>,
       process_init ''P2'' 1 2 3
        \<lparr>start_time := Some 2, end_time := Some 4, remaining_time := 0,
         response_time := Some 1, status := Some ''S'', turnaround_time := Some 3,
         waiting_time := Some 1\<rparr>],
      Inr (PyFloat (3 / 2), PyFloat (1 / 2), PyFloat (9 / 2), PyFloat (33 / 100),
           PyFloat 100, PyFloat (3 / 2)))
   \<and> calculate_metrics exact_ops
     [process_init ''P1'' 0 4 10
        \<lparr>start_time := Some 0, end_time := Some 6, remaining_time := 0,
         response_time := Some 0, status := Some ''S'', turnaround_time := Some 6,
         waiting_time := Some 2\<rparr>,
      process_init ''P2'' 1 2 3
        \<lparr>start_time := Some 2, end_time := Some 4, remaining_time := 0,
         response_time := Some 1, status := Some ''S'', turnaround_time := Some 3,
         waiting_time := Some 1\<rparr>] =
     ([process_init ''P1'' 0 4 10
        \<lparr>start_time := Some 0, end_time := Some 6, remaining_time := 0,
         response_time := Some 0, status := Some ''S'', turnaround_time := Some 6,
         waiting_time := Some 2\<rparr>,
       process_init ''P2'' 1 2 3
        \<lparr>start_time := Some 2, end_time := Some 4, remaining_time := 0,
         response_time := Some 1, status := Some ''S'', turnaround_time := Some 3,
         waiting_time := Some 1\<rparr>],
      Inr (PyFloat (3 / 2), PyFloat (1 / 2), PyFloat (9 / 2), PyFloat (33 / 100),
           PyFloat 100, PyFloat (3 / 2)))"
proof -
  have h: "calculate_metrics exact_ops
     [process_init ''P1'' 0 4 10
        \<lparr>start_time := Some 0, end_time := Some 6, remaining_time := 0,
         response_time := Some 0, status := Some ''S''\<rparr>,
      process_init ''P2'' 1 2 3
        \<lparr>start_time := Some 2, end_time := Some 4, remaining_time := 0,
         response_time := Some 1, status := Some ''S''\<rparr>] =
     ([process_init ''P1'' 0 4 10
        \<lparr>start_time := Some 0, end_time := Some 6, remaining_time := 0,
         response_time := Some 0, status := Some ''S'', turnaround_time := Some 6,
         waiting_time := Some 2\<rparr>,
       process_init ''P2'' 1 2 3
        \<lparr>start_time := Some 2, end_time := Some 4, remaining_time := 0,
         response_time := Some 1, status := Some ''S'', turnaround_time := Some 3,
         waiting_time := Some 1\<rparr>],
      Inr (PyFloat (3 / 2), PyFloat (1 / 2), PyFloat (9 / 2), PyFloat (33 / 100),
           PyFloat 100, PyFloat (3 / 2)))"
    by code_simp
  from metrics_idempotent[OF h] h show ?thesis by simp
qed

section \<open>The schedulers on scenario B\<close>

text \<open>
  C4. P1 (arrival 0, burst 4, deadline 10) and P2 (arrival 1, burst 2, deadline 3),
  quantum 2. Under \<open>edf\<close> the CPU runs P1 during the first unit of time, P2 during the
  next two (P2 starts at 1 and ends at 3) and P1 from 3 to 6. Under \<open>rr\<close> it runs P1 from
  0 to 2, P2 from 2 to 4 and P1 from 4 to 6. The final state lists the processes in order
  of completion, the returned list in order of start.
\<close>

theorem scenario_B:
  "edf_sim [process_init ''P1'' 0 4 10, process_init ''P2'' 1 2 3] =
     Some \<lparr>current_time = 6, processes = [], ready_queue = [],
       cpu = [process_init ''P2'' 1 2 3
                 \<lparr>start_time := Some 1, end_time := Some 3, remaining_time := 0,
                  response_time := Some 0, status := Some ''S''\<rparr>,
              process_init ''P1'' 0 4 10
                 \<lparr>start_time := Some 0, end_time := Some 6, remaining_time := 0,
                  response_time := Some 0, status := Some ''S''\<rparr>],
       timeline = [Some ''P1'', Some ''P2'', Some ''P2'',
                   Some ''P1'', Some ''P1'', Some ''P1'']\<rparr>
   \<and> edf [process_init ''P1'' 0 4 10, process_init ''P2'' 1 2 3] =
     Some ([], Inr [process_init ''P1'' 0 4 10
                 \<lparr>start_time := Some 0, end_time := Some 6, remaining_time := 0,
                  response_time := Some 0, status := Some ''S''\<rparr>,
               process_init ''P2'' 1 2 3
                 \<lparr>start_time := Some 1, end_time := Some 3, remaining_time := 0,
                  response_time := Some 0, status := Some ''S''\<rparr>])
   \<and> rr_sim [process_init ''P1'' 0 4 10, process_init ''P2'' 1 2 3] 2 =
     Some \<lparr>current_time = 6, processes = [], ready_queue = [],
       cpu = [process_init ''P2'' 1 2 3
                 \<lparr>start_time := Some 2, end_time := Some 4, remaining_time := 0,
                  response_time := Some 1, status := Some ''S''\<rparr>,
              process_init ''P1'' 0 4 10
                 \<lparr>start_time := Some 0, end_time := Some 6, remaining_time := 0,
                  response_time := Some 0, status := Some ''S''\<rparr>],
       timeline = [Some ''P1'', Some ''P1'', Some ''P2'',
                   Some ''P2'', Some ''P1'', Some ''P1'']\<rparr>
   \<and> rr [process_init ''P1'' 0 4 10, process_init ''P2'' 1 2 3] 2 =
     Some ([], Inr [process_init ''P1'' 0 4 10
                 \<lparr>start_time := Some 0, end_time := Some 6, remaining_time := 0,
                  response_time := Some 0, status := Some ''S''\<rparr>,
               process_init ''P2'' 1 2 3
                 \<lparr>start_time := Some 2, end_time := Some 4, remaining_time := 0,
                  response_time := Some 1, status := Some ''S''\<rparr>])"
  by code_simp

section \<open>Invariants of the simulation loops\<close>

lemma sim_loop_invariant:
  assumes "sim_loop body s = Some t" and "P s"
    and step: "\<And>s. P s \<Longrightarrow> processes s \<noteq> [] \<or> ready_queue s \<noteq> [] \<Longrightarrow> P (body s)"
  shows "P t \<and> processes t = [] \<and> ready_queue t = []"
proof -
  have "body = body \<longrightarrow> P s \<longrightarrow> P t \<and> processes t = [] \<and> ready_queue t = []"
    by (rule sim_loop.raw_induct[where P = "\<lambda>b s t. b = body \<longrightarrow> P s \<longrightarrow>
          P t \<and> processes t = [] \<and> ready_queue t = []", OF _ assms(1)])
       (auto split: if_splits intro: step)
  with assms(2) show ?thesis by simp
qed

lemma sim_loop_terminates:
  assumes "wf R" and "P s"
    and step: "\<And>s. P s \<Longrightarrow> processes s \<noteq> [] \<or> ready_queue s \<noteq> [] \<Longrightarrow>
                 P (body s) \<and> (body s, s) \<in> R"
  shows "\<exists>t. sim_loop body s = Some t"
  using assms(1,2)
proof (induction s rule: wf_induct_rule)
  case (less s)
  show ?case
  proof (cases "processes s \<noteq> [] \<or> ready_queue s \<noteq> []")
    case True
    with step[OF less.prems] have "P (body s)" "(body s, s) \<in> R" by auto
    from less.IH[OF this(2) this(1)] obtain t where "sim_loop body (body s) = Some t" ..
    with True show ?thesis by (subst sim_loop.simps) auto
  next
    case False
    then show ?thesis by (subst sim_loop.simps) auto
  qed
qed

lemma mset_remove_at:
  "i < length xs \<Longrightarrow> mset (remove_at i xs) + {#xs ! i#} = mset xs"
proof -
  assume "i < length xs"
  then have "xs = take i xs @ xs ! i # drop (Suc i) xs" by (rule id_take_nth_drop)
  then have "mset xs = mset (take i xs @ xs ! i # drop (Suc i) xs)" by simp
  then show ?thesis by (simp add: remove_at_def)
qed

lemma admit_from_props:
  "admit_from t i ps rq = (ps', rq') \<Longrightarrow>
     \<exists>moved. rq' = rq @ moved \<and> mset ps' + mset moved = mset ps \<and>
       (\<forall>p\<in>set moved. arrival_time p \<le> t) \<and> (moved = [] \<longrightarrow> ps' = ps) \<and>
       (i < length ps \<and> arrival_time (ps ! i) \<le> t \<longrightarrow> moved \<noteq> [])"
proof (induction t i ps rq arbitrary: ps' rq' rule: admit_from.induct)
  case (1 t i ps rq)
  show ?case
  proof (cases "i < length ps")
    case False
    then have "admit_from t i ps rq = (ps, rq)"
      by (subst admit_from.simps) simp
    with "1.prems" False show ?thesis by simp
  next
    case True
    show ?thesis
    proof (cases "arrival_time (ps ! i) \<le> t")
      case arrived: True
      with True
      have "admit_from t i ps rq = admit_from t (Suc i) (remove_at i ps) (rq @ [ps ! i])"
        by (subst admit_from.simps) (simp add: Let_def)
      with "1.prems"
      have "admit_from t (Suc i) (remove_at i ps) (rq @ [ps ! i]) = (ps', rq')"
        by simp
      from "1.IH"(1)[OF True refl arrived this] obtain moved where
        m: "rq' = (rq @ [ps ! i]) @ moved" "mset ps' + mset moved = mset (remove_at i ps)"
           "\<forall>p\<in>set moved. arrival_time p \<le> t" by blast
      from m(2) mset_remove_at[OF True]
      have "mset ps' + mset (ps ! i # moved) = mset ps" by simp
      with m(1,3) arrived show ?thesis
        by (intro exI[of _ "ps ! i # moved"]) simp
    next
      case waiting: False
      with True
      have "admit_from t i ps rq = admit_from t (Suc i) ps rq"
        by (subst admit_from.simps) (simp add: Let_def)
      with "1.prems"
      have "admit_from t (Suc i) ps rq = (ps', rq')"
        by simp
      from "1.IH"(2)[OF True refl waiting this] waiting show ?thesis by blast
    qed
  qed
qed

lemma admit_fields [simp]:
  "current_time (admit s) = current_time s" "cpu (admit s) = cpu s"
  "timeline (admit s) = timeline s"
  by (simp_all add: admit_def split: prod.splits)

lemma tick_fields [simp]:
  "current_time (tick w s) = current_time s + 1" "cpu (tick w s) = cpu s"
  "timeline (tick w s) = timeline s @ [w]" "processes (tick w s) = processes s"
  "ready_queue (tick w s) = ready_queue s"
  by (simp_all add: tick_def)

lemma admit_moved:
  obtains moved where
    "ready_queue (admit s) = ready_queue s @ moved"
    "mset (processes (admit s)) + mset moved = mset (processes s)"
    "\<forall>p\<in>set moved. arrival_time p \<le> current_time s"
    "moved = [] \<Longrightarrow> processes (admit s) = processes s"
    "processes s \<noteq> [] \<Longrightarrow> arrival_time (hd (processes s)) \<le> current_time s \<Longrightarrow> moved \<noteq> []"
proof -
  obtain ps' rq' where
    r: "admit_from (current_time s) 0 (processes s) (ready_queue s) = (ps', rq')"
    by fastforce
  then have a: "processes (admit s) = ps'" "ready_queue (admit s) = rq'"
    by (simp_all add: admit_def update_ready_queue_def)
  from admit_from_props[OF r] obtain moved where
    "rq' = ready_queue s @ moved" "mset ps' + mset moved = mset (processes s)"
    "\<forall>p\<in>set moved. arrival_time p \<le> current_time s" "moved = [] \<longrightarrow> ps' = processes s"
    "0 < length (processes s) \<and> arrival_time (processes s ! 0) \<le> current_time s \<longrightarrow> moved \<noteq> []"
    by blast
  with a show ?thesis
    by (intro that[of moved]) (auto simp: hd_conv_nth)
qed

lemma dispatch_fields [simp]:
  "name (dispatch t p) = name p" "arrival_time (dispatch t p) = arrival_time p"
  "burst_time (dispatch t p) = burst_time p" "deadline (dispatch t p) = deadline p"
  "remaining_time (dispatch t p) = remaining_time p" "end_time (dispatch t p) = end_time p"
  "status (dispatch t p) = status p" "response_time (dispatch t p) \<noteq> None"
  "descriptor (dispatch t p) = descriptor p"
  by (simp_all add: dispatch_def descriptor_def)

lemma population_admit [simp]: "population run (admit s) = population run s"
proof -
  obtain moved where
    "ready_queue (admit s) = ready_queue s @ moved"
    "mset (processes (admit s)) + mset moved = mset (processes s)"
    by (rule admit_moved[of s]) blast
  then have "mset (processes (admit s) @ ready_queue (admit s)) =
             mset (processes s @ ready_queue s)" by (simp add: ac_simps)
  then have "mset (map descriptor (processes (admit s) @ ready_queue (admit s))) =
             mset (map descriptor (processes s @ ready_queue s))"
    by (metis mset_map)
  then show ?thesis by (simp add: population_def)
qed

lemma population_tick [simp]: "population run (tick w s) = population run s"
  by (simp add: population_def)

lemma fresh_fields:
  assumes "fresh p"
  shows "response_time p = None" "remaining_time p = burst_time p" "start_time p = None"
    "end_time p = None" "status p = None"
proof -
  from assms have e: "p = process_init (name p) (arrival_time p) (burst_time p) (deadline p)"
    by (simp add: fresh_def)
  show "response_time p = None"
    using arg_cong[OF e, of response_time] by (simp add: process_init_def)
  show "remaining_time p = burst_time p"
    using arg_cong[OF e, of remaining_time] by (simp add: process_init_def)
  show "start_time p = None"
    using arg_cong[OF e, of start_time] by (simp add: process_init_def)
  show "end_time p = None"
    using arg_cong[OF e, of end_time] by (simp add: process_init_def)
  show "status p = None"
    using arg_cong[OF e, of status] by (simp add: process_init_def)
qed

lemma pooled_queued: "pooled p \<Longrightarrow> arrival_time p \<le> t \<Longrightarrow> queued t p"
  by (simp add: pooled_def queued_def live_def fresh_fields)

lemma live_mono: "live t p \<Longrightarrow> t \<le> t' \<Longrightarrow> live t' p"
  by (auto simp: live_def split: option.splits)

lemma queued_mono: "queued t p \<Longrightarrow> t \<le> t' \<Longrightarrow> queued t' p"
  by (auto simp: queued_def intro: live_mono)

lemma finished_mono: "finished t p \<Longrightarrow> t \<le> t' \<Longrightarrow> finished t' p"
  by (auto simp: finished_def split: option.splits)

lemma live_dispatch: "live t p \<Longrightarrow> 0 \<le> t \<Longrightarrow> live t (dispatch t p)"
  by (auto simp: live_def dispatch_def split: option.splits)

lemma live_exec:
  "live t p \<Longrightarrow> response_time p \<noteq> None \<Longrightarrow> 0 < remaining_time p \<Longrightarrow>
   live (t + 1) (p\<lparr>remaining_time := remaining_time p - 1\<rparr>)"
  by (auto simp: live_def split: option.splits)

lemma live_finished:
  "live t p \<Longrightarrow> response_time p \<noteq> None \<Longrightarrow> remaining_time p = 0 \<Longrightarrow>
   finished t (p\<lparr>end_time := Some t, status := Some x\<rparr>)"
  by (auto simp: live_def finished_def split: option.splits)

lemma set_of_mset_sum:
  "mset xs + mset ys = mset zs \<Longrightarrow> set xs \<union> set ys = set zs"
  by (metis set_mset_mset set_mset_union)

lemma good_admit: "good run s \<Longrightarrow> good run (admit s)"
proof -
  assume g: "good run s"
  obtain moved where m:
    "ready_queue (admit s) = ready_queue s @ moved"
    "mset (processes (admit s)) + mset moved = mset (processes s)"
    "\<forall>p\<in>set moved. arrival_time p \<le> current_time s"
    by (rule admit_moved[of s]) blast
  from set_of_mset_sum[OF m(2)]
  have sub: "set (processes (admit s)) \<subseteq> set (processes s)" "set moved \<subseteq> set (processes s)"
    by auto
  have "\<forall>p\<in>set moved. queued (current_time s) p"
    using g sub(2) m(3) by (auto simp: good_def intro: pooled_queued)
  with g sub(1) m(1) show ?thesis by (auto simp: good_def)
qed

lemma good_idle: "good [] s \<Longrightarrow> good [] (tick None s)"
  by (auto simp: good_def intro: queued_mono finished_mono)

lemma good_pop:
  "good [] s \<Longrightarrow> mset (p # rest) = mset (ready_queue s) \<Longrightarrow> good [p] (s\<lparr>ready_queue := rest\<rparr>)"
proof -
  assume g: "good [] s" and m: "mset (p # rest) = mset (ready_queue s)"
  from m have "set (p # rest) = set (ready_queue s)" by (metis set_mset_mset)
  with g show ?thesis by (auto simp: good_def queued_def)
qed

lemma good_dispatch: "good [p] s \<Longrightarrow> good [dispatch (current_time s) p] s"
  by (auto simp: good_def intro: live_dispatch)

lemma good_exec:
  "good [p] s \<Longrightarrow> response_time p \<noteq> None \<Longrightarrow> 0 < remaining_time p \<Longrightarrow>
   good [p\<lparr>remaining_time := remaining_time p - 1\<rparr>] (tick w s)"
  by (auto simp: good_def intro: queued_mono finished_mono live_exec)

lemma good_finish:
  "good [p] s \<Longrightarrow> response_time p \<noteq> None \<Longrightarrow> remaining_time p = 0 \<Longrightarrow>
   good [] (s\<lparr>cpu := cpu s @ [p\<lparr>end_time := Some (current_time s), status := Some x\<rparr>]\<rparr>)"
  by (auto simp: good_def intro: live_finished)

lemma good_requeue:
  "good [p] s \<Longrightarrow> 0 < remaining_time p \<Longrightarrow> good [] (s\<lparr>ready_queue := ready_queue s @ [p]\<rparr>)"
  by (auto simp: good_def queued_def)

lemma closed_admit: "step_closed I \<Longrightarrow> good run s \<Longrightarrow> I run s \<Longrightarrow> I run (admit s)"
  by (simp add: step_closed_def)

lemma closed_idle:
  "step_closed I \<Longrightarrow> good [] s \<Longrightarrow> I [] s \<Longrightarrow> ready_queue s = [] \<Longrightarrow> processes s \<noteq> [] \<Longrightarrow>
   current_time s < arrival_time (hd (processes s)) \<Longrightarrow> I [] (tick None s)"
  by (simp add: step_closed_def)

lemma closed_pop:
  "step_closed I \<Longrightarrow> good [] s \<Longrightarrow> I [] s \<Longrightarrow> mset (p # rest) = mset (ready_queue s) \<Longrightarrow>
   I [p] (s\<lparr>ready_queue := rest\<rparr>)"
  by (simp add: step_closed_def)

lemma closed_dispatch:
  "step_closed I \<Longrightarrow> good [p] s \<Longrightarrow> I [p] s \<Longrightarrow> I [dispatch (current_time s) p] s"
  by (simp add: step_closed_def)

lemma closed_exec:
  "step_closed I \<Longrightarrow> good [p] s \<Longrightarrow> I [p] s \<Longrightarrow> response_time p \<noteq> None \<Longrightarrow>
   0 < remaining_time p \<Longrightarrow>
   I [p\<lparr>remaining_time := remaining_time p - 1\<rparr>] (tick (Some (name p)) s)"
  by (simp add: step_closed_def)

lemma closed_finish:
  "step_closed I \<Longrightarrow> good [p] s \<Longrightarrow> I [p] s \<Longrightarrow> response_time p \<noteq> None \<Longrightarrow>
   remaining_time p = 0 \<Longrightarrow>
   I [] (s\<lparr>cpu := cpu s @ [p\<lparr>end_time := Some (current_time s), status := Some x\<rparr>]\<rparr>)"
  by (simp add: step_closed_def)

lemma closed_requeue:
  "step_closed I \<Longrightarrow> good [p] s \<Longrightarrow> I [p] s \<Longrightarrow> response_time p \<noteq> None \<Longrightarrow>
   0 < remaining_time p \<Longrightarrow> I [] (s\<lparr>ready_queue := ready_queue s @ [p]\<rparr>)"
  by (simp add: step_closed_def)

lemma idle_admit:
  assumes "ready_queue (admit s) = []" and "processes s \<noteq> [] \<or> ready_queue s \<noteq> []"
  shows "processes (admit s) \<noteq> []"
    and "current_time s < arrival_time (hd (processes (admit s)))"
proof -
  obtain moved where m:
    "ready_queue (admit s) = ready_queue s @ moved"
    "moved = [] \<Longrightarrow> processes (admit s) = processes s"
    "processes s \<noteq> [] \<Longrightarrow> arrival_time (hd (processes s)) \<le> current_time s \<Longrightarrow> moved \<noteq> []"
    by (rule admit_moved[of s]) blast
  from m(1) assms(1) have e: "moved = []" "ready_queue s = []" by auto
  with assms(2) m(2) show "processes (admit s) \<noteq> []" by simp
  from e assms(2) m(2,3) show "current_time s < arrival_time (hd (processes (admit s)))"
    by fastforce
qed

lemma hd_tl_mset: "xs \<noteq> [] \<Longrightarrow> mset (hd xs # tl xs) = mset xs"
  by (cases xs) simp_all

lemma edf_iter_closed:
  assumes c: "step_closed I" and g: "good [] s" and i: "I [] s"
    and cond: "processes s \<noteq> [] \<or> ready_queue s \<noteq> []"
  shows "good [] (edf_iter s) \<and> I [] (edf_iter s) \<and> current_time s < current_time (edf_iter s)"
proof -
  define s1 where "s1 = admit s"
  have g1: "good [] s1" and i1: "I [] s1"
    using g i c by (simp_all add: s1_def good_admit closed_admit)
  have t1: "current_time s1 = current_time s" by (simp add: s1_def)
  show ?thesis
  proof (cases "ready_queue s1 = []")
    case True
    have e: "edf_iter s = tick None s1"
      using True by (simp add: edf_iter_def s1_def)
    from idle_admit[OF True[unfolded s1_def] cond]
    have "processes s1 \<noteq> []" "current_time s1 < arrival_time (hd (processes s1))"
      by (simp_all add: s1_def)
    from closed_idle[OF c g1 i1 True this] good_idle[OF g1] e t1
    show ?thesis by simp
  next
    case False
    define rq where "rq = sort_key deadline (ready_queue s1)"
    define p0 where "p0 = hd rq"
    define rest where "rest = tl rq"
    define s2 where "s2 = s1\<lparr>ready_queue := rest\<rparr>"
    define p1 where "p1 = dispatch (current_time s1) p0"
    define p2 where "p2 = p1\<lparr>remaining_time := remaining_time p1 - 1\<rparr>"
    define s3 where "s3 = admit (tick (Some (name p2)) s2)"
    have "length rq = length (ready_queue s1)" by (simp add: rq_def)
    with False have ne: "rq \<noteq> []" by auto
    have m: "mset (p0 # rest) = mset (ready_queue s1)"
      using hd_tl_mset[OF ne] by (simp add: p0_def rest_def rq_def)
    then have "p0 \<in> set (ready_queue s1)" by (metis list.set_intros(1) set_mset_mset)
    with g1 have pos: "0 < remaining_time p1" by (simp add: good_def queued_def p1_def)
    have g2: "good [p0] s2" and i2: "I [p0] s2"
      using good_pop[OF g1 m] closed_pop[OF c g1 i1 m] by (simp_all add: s2_def)
    have t2: "current_time s2 = current_time s1" by (simp add: s2_def)
    have g2': "good [p1] s2" and i2': "I [p1] s2"
      using good_dispatch[OF g2] closed_dispatch[OF c g2 i2] by (simp_all add: p1_def t2)
    have r1: "response_time p1 \<noteq> None" by (simp add: p1_def)
    have n2: "name p2 = name p1" by (simp add: p2_def)
    have g3: "good [p2] s3" and i3: "I [p2] s3"
      using good_admit[OF good_exec[OF g2' r1 pos]]
            closed_admit[OF c good_exec[OF g2' r1 pos] closed_exec[OF c g2' i2' r1 pos]]
      by (simp_all add: s3_def p2_def)
    have r2: "response_time p2 \<noteq> None" using r1 by (simp add: p2_def)
    have t3: "current_time s3 = current_time s + 1" by (simp add: s3_def t2 t1)
    show ?thesis
    proof (cases "remaining_time p2 = 0")
      case True
      have e: "edf_iter s = s3\<lparr>cpu := cpu s3 @
                 [p2\<lparr>end_time := Some (current_time s3),
                     status := Some (if current_time s3 \<le> deadline p2 then ''S'' else ''F'')\<rparr>]\<rparr>"
        using False True
        by (simp add: edf_iter_def Let_def check_status_def s1_def rq_def p0_def rest_def
              s2_def p1_def p2_def s3_def)
      from good_finish[OF g3 r2 True] closed_finish[OF c g3 i3 r2 True] e t3
      show ?thesis by simp
    next
      case nz: False
      define s4 where "s4 = admit s3"
      have e: "edf_iter s = s4\<lparr>ready_queue := ready_queue s4 @ [p2]\<rparr>"
        using False nz
        by (simp add: edf_iter_def Let_def s1_def rq_def p0_def rest_def
              s2_def p1_def p2_def s3_def s4_def)
      from g3 have "0 \<le> remaining_time p2" by (simp add: good_def live_def)
      with nz have pos2: "0 < remaining_time p2" by simp
      have g4: "good [p2] s4" and i4: "I [p2] s4"
        using good_admit[OF g3] closed_admit[OF c g3 i3] by (simp_all add: s4_def)
      have t4: "current_time s4 = current_time s + 1" by (simp add: s4_def t3)
      from good_requeue[OF g4 pos2] closed_requeue[OF c g4 i4 r2 pos2] e t4
      show ?thesis by simp
    qed
  qed
qed

lemma run_slice_closed:
  assumes c: "step_closed I"
  shows "good [p] s \<Longrightarrow> I [p] s \<Longrightarrow> response_time p \<noteq> None \<Longrightarrow> k \<le> remaining_time p \<Longrightarrow>
         run_slice k p s = (p', s') \<Longrightarrow>
         good [p'] s' \<and> I [p'] s' \<and> response_time p' \<noteq> None \<and>
         remaining_time p' = remaining_time p - max 0 k \<and>
         current_time s' = current_time s + max 0 k"
proof (induction k p s rule: run_slice.induct)
  case (1 k p s)
  show ?case
  proof (cases "0 < k")
    case False
    then have "run_slice k p s = (p, s)" by (subst run_slice.simps) simp
    with "1.prems" False show ?thesis by simp
  next
    case True
    define q where "q = p\<lparr>remaining_time := remaining_time p - 1\<rparr>"
    define u where "u = admit (tick (Some (name p)) s)"
    from True have "run_slice k p s = run_slice (k - 1) q u"
      by (subst run_slice.simps) (simp add: q_def u_def)
    with "1.prems"(5) have r: "run_slice (k - 1) q u = (p', s')" by simp
    from True "1.prems"(4) have pos: "0 < remaining_time p" by simp
    note ge = good_exec[OF "1.prems"(1,3) pos, of "Some (name p)"]
    have gu: "good [q] u" using good_admit[OF ge] by (simp add: q_def u_def)
    have iu: "I [q] u"
      using closed_admit[OF c ge closed_exec[OF c "1.prems"(1,2,3) pos]]
      by (simp add: q_def u_def)
    have rq: "response_time q \<noteq> None" using "1.prems"(3) by (simp add: q_def)
    have le: "k - 1 \<le> remaining_time q" using "1.prems"(4) by (simp add: q_def)
    from "1.IH"[OF True gu[unfolded q_def u_def] iu[unfolded q_def u_def]
                rq[unfolded q_def] le[unfolded q_def] r[unfolded q_def u_def]] True
    show ?thesis by (simp add: q_def u_def)
  qed
qed

lemma rr_iter_closed:
  assumes c: "step_closed I" and g: "good [] s" and i: "I [] s"
    and cond: "processes s \<noteq> [] \<or> ready_queue s \<noteq> []"
  shows "good [] (rr_iter quantum s) \<and> I [] (rr_iter quantum s) \<and>
         (0 < quantum \<longrightarrow> current_time s < current_time (rr_iter quantum s))"
proof -
  define s1 where "s1 = admit s"
  have g1: "good [] s1" and i1: "I [] s1"
    using g i c by (simp_all add: s1_def good_admit closed_admit)
  have t1: "current_time s1 = current_time s" by (simp add: s1_def)
  show ?thesis
  proof (cases "ready_queue s1 = []")
    case True
    have e: "rr_iter quantum s = tick None s1"
      using True by (simp add: rr_iter_def s1_def)
    from idle_admit[OF True[unfolded s1_def] cond]
    have "processes s1 \<noteq> []" "current_time s1 < arrival_time (hd (processes s1))"
      by (simp_all add: s1_def)
    from closed_idle[OF c g1 i1 True this] good_idle[OF g1] e t1
    show ?thesis by simp
  next
    case False
    define p0 where "p0 = hd (ready_queue s1)"
    define rest where "rest = tl (ready_queue s1)"
    define s2 where "s2 = s1\<lparr>ready_queue := rest\<rparr>"
    define p1 where "p1 = dispatch (current_time s1) p0"
    define k where "k = min quantum (remaining_time p1)"
    obtain p2 s3 where rs: "run_slice k p1 s2 = (p2, s3)" by fastforce
    have m: "mset (p0 # rest) = mset (ready_queue s1)"
      using hd_tl_mset[OF False] by (simp add: p0_def rest_def)
    then have "p0 \<in> set (ready_queue s1)" by (metis list.set_intros(1) set_mset_mset)
    with g1 have pos: "0 < remaining_time p1" by (simp add: good_def queued_def p1_def)
    have g2: "good [p0] s2" and i2: "I [p0] s2"
      using good_pop[OF g1 m] closed_pop[OF c g1 i1 m] by (simp_all add: s2_def)
    have t2: "current_time s2 = current_time s1" by (simp add: s2_def)
    have g2': "good [p1] s2" and i2': "I [p1] s2"
      using good_dispatch[OF g2] closed_dispatch[OF c g2 i2] by (simp_all add: p1_def t2)
    have r1: "response_time p1 \<noteq> None" by (simp add: p1_def)
    have kle: "k \<le> remaining_time p1" by (simp add: k_def)
    from run_slice_closed[OF c g2' i2' r1 kle rs]
    have g3: "good [p2] s3" and i3: "I [p2] s3" and r2: "response_time p2 \<noteq> None"
      and rem: "remaining_time p2 = remaining_time p1 - max 0 k"
      and t3: "current_time s3 = current_time s2 + max 0 k" by simp_all
    have adv: "0 < quantum \<longrightarrow> current_time s < current_time s3"
      using pos t3 t2 t1 by (auto simp: k_def)
    show ?thesis
    proof (cases "remaining_time p2 = 0")
      case True
      have e: "rr_iter quantum s = s3\<lparr>cpu := cpu s3 @
                 [p2\<lparr>end_time := Some (current_time s3), status := Some ''S''\<rparr>]\<rparr>"
        using False True rs
        by (simp add: rr_iter_def Let_def s1_def p0_def rest_def s2_def p1_def k_def)
      from good_finish[OF g3 r2 True] closed_finish[OF c g3 i3 r2 True] e adv
      show ?thesis by simp
    next
      case nz: False
      define s4 where "s4 = admit s3"
      have e: "rr_iter quantum s = s4\<lparr>ready_queue := ready_queue s4 @ [p2]\<rparr>"
        using False nz rs
        by (simp add: rr_iter_def Let_def s1_def p0_def rest_def s2_def p1_def k_def s4_def)
      from g3 have "0 \<le> remaining_time p2" by (simp add: good_def live_def)
      with nz have pos2: "0 < remaining_time p2" by simp
      have g4: "good [p2] s4" and i4: "I [p2] s4"
        using good_admit[OF g3] closed_admit[OF c g3 i3] by (simp_all add: s4_def)
      have t4: "current_time s4 = current_time s3" by (simp add: s4_def)
      from good_requeue[OF g4 pos2] closed_requeue[OF c g4 i4 r2 pos2] e t4 adv
      show ?thesis by simp
    qed
  qed
qed

lemma admit_mset:
  "mset (processes (admit s) @ ready_queue (admit s)) = mset (processes s @ ready_queue s)"
proof -
  obtain moved where
    "ready_queue (admit s) = ready_queue s @ moved"
    "mset (processes (admit s)) + mset moved = mset (processes s)"
    by (rule admit_moved[of s]) blast
  then show ?thesis by (simp add: ac_simps)
qed

lemma admit_pool_subset: "set (processes (admit s)) \<subseteq> set (processes s)"
proof -
  obtain moved where "mset (processes (admit s)) + mset moved = mset (processes s)"
    by (rule admit_moved[of s]) blast
  from set_of_mset_sum[OF this] show ?thesis by auto
qed

lemma work_append [simp]: "work (xs @ ys) = work xs + work ys"
  by (simp add: work_def)

lemma work_Cons [simp]: "work (p # xs) = remaining_time p + work xs"
  by (simp add: work_def)

lemma work_Nil [simp]: "work [] = 0"
  by (simp add: work_def)

lemma work_mset: "mset xs = mset ys \<Longrightarrow> work xs = work ys"
proof -
  assume "mset xs = mset ys"
  then have "mset (map remaining_time xs) = mset (map remaining_time ys)"
    by (metis mset_map)
  then have "sum_mset (mset (map remaining_time xs)) = sum_mset (mset (map remaining_time ys))"
    by simp
  then show ?thesis by (simp only: work_def sum_mset_sum_list)
qed

lemma work_admit:
  "work (processes (admit s)) + work (ready_queue (admit s)) =
   work (processes s) + work (ready_queue s)"
  using work_mset[OF admit_mset[of s]] by simp

lemma work_pos: "(\<forall>p\<in>set xs. 0 < remaining_time p) \<Longrightarrow> xs \<noteq> [] \<Longrightarrow> 0 < work xs"
proof (induction xs)
  case Nil
  then show ?case by simp
next
  case (Cons p xs)
  then show ?case by (cases xs) auto
qed

lemma bounded_closed: "step_closed (bounded A B)"
proof -
  have adm: "bounded A B run (admit s)" if "bounded A B run s" for run s
    using that work_admit[of s] admit_pool_subset[of s] by (auto simp: bounded_def)
  have idle: "bounded A B [] (tick None s)"
    if "bounded A B [] s" "processes s \<noteq> []" "current_time s < arrival_time (hd (processes s))"
    for s
  proof -
    from that(2) have "hd (processes s) \<in> set (processes s)" by simp
    with that(1) have "arrival_time (hd (processes s)) \<le> A" by (simp add: bounded_def)
    with that(1,3) show ?thesis by (auto simp: bounded_def)
  qed
  have pop: "bounded A B [p] (s\<lparr>ready_queue := rest\<rparr>)"
    if "bounded A B [] s" "mset (p # rest) = mset (ready_queue s)" for s p rest
    using that(1) work_mset[OF that(2)] by (auto simp: bounded_def)
  have disp: "bounded A B [dispatch (current_time s) p] s" if "bounded A B [p] s" for s p
    using that by (simp add: bounded_def)
  have exec: "bounded A B [p\<lparr>remaining_time := remaining_time p - 1\<rparr>] (tick (Some (name p)) s)"
    if "bounded A B [p] s" for s p
    using that by (simp add: bounded_def)
  have fin: "bounded A B []
       (s\<lparr>cpu := cpu s @ [p\<lparr>end_time := Some (current_time s), status := Some x\<rparr>]\<rparr>)"
    if "bounded A B [p] s" "remaining_time p = 0" for s p x
    using that by (simp add: bounded_def)
  have req: "bounded A B [] (s\<lparr>ready_queue := ready_queue s @ [p]\<rparr>)"
    if "bounded A B [p] s" for s p
    using that by (simp add: bounded_def)
  show ?thesis
    by (simp add: step_closed_def adm idle pop disp exec fin req)
qed

lemma population_closed: "step_closed (\<lambda>run s. population run s = D)"
proof -
  have pop: "population [p] (s\<lparr>ready_queue := rest\<rparr>) = population [] s"
    if "mset (p # rest) = mset (ready_queue s)" for s p rest
  proof -
    from that have "mset (map descriptor (p # rest)) = mset (map descriptor (ready_queue s))"
      by (metis mset_map)
    then show ?thesis by (simp add: population_def)
  qed
  have exec: "population [p\<lparr>remaining_time := remaining_time p - 1\<rparr>] s =
              population [p] s" for s p
    by (simp add: population_def descriptor_def)
  have fin: "population []
       (s\<lparr>cpu := cpu s @ [p\<lparr>end_time := Some t, status := Some x\<rparr>]\<rparr>) = population [p] s"
    for s p x t
    by (simp add: population_def descriptor_def)
  have disp: "population [dispatch t p] s = population [p] s" for s p t
    by (simp add: population_def)
  have req: "population [] (s\<lparr>ready_queue := ready_queue s @ [p]\<rparr>) = population [p] s"
    for s p
    by (simp add: population_def)
  show ?thesis
    by (simp add: step_closed_def pop exec fin disp req)
qed

lemma initial_good:
  assumes "\<forall>p\<in>set ps. fresh p \<and> 0 < burst_time p"
  shows "good [] (initial ps)"
  using assms by (simp add: good_def initial_def pooled_def)

lemma initial_population: "population [] (initial ps) = mset (map descriptor ps)"
proof -
  have "mset (map descriptor (sort_key arrival_time ps)) = mset (map descriptor ps)"
    by (metis mset_map mset_sort)
  then show ?thesis by (simp add: population_def initial_def)
qed

lemma initial_bounded:
  "bounded (Max (insert 0 (arrival_time ` set ps))) (work ps) [] (initial ps)"
proof -
  have w: "work (sort_key arrival_time ps) = work ps"
    by (rule work_mset) simp
  have "arrival_time p \<le> Max (insert 0 (arrival_time ` set ps))" if "p \<in> set ps" for p
    using that by (intro Max_ge) auto
  moreover have "0 \<le> Max (insert 0 (arrival_time ` set ps))"
    by (intro Max_ge) auto
  ultimately show ?thesis by (simp add: bounded_def initial_def w)
qed

lemma pending_work:
  assumes "good [] s" and "processes s \<noteq> [] \<or> ready_queue s \<noteq> []"
  shows "0 < work (processes s @ ready_queue s)"
proof (rule work_pos)
  show "\<forall>p\<in>set (processes s @ ready_queue s). 0 < remaining_time p"
    using assms(1) by (auto simp: good_def pooled_def queued_def fresh_fields)
  show "processes s @ ready_queue s \<noteq> []" using assms(2) by simp
qed

lemma loop_total:
  assumes g: "good [] s0" and b: "bounded A B [] s0"
    and step: "\<And>s. good [] s \<Longrightarrow> bounded A B [] s \<Longrightarrow>
                 processes s \<noteq> [] \<or> ready_queue s \<noteq> [] \<Longrightarrow>
                 good [] (body s) \<and> bounded A B [] (body s) \<and>
                 current_time s < current_time (body s)"
  shows "\<exists>t. sim_loop body s0 = Some t"
proof (rule sim_loop_terminates[where P = "\<lambda>s. good [] s \<and> bounded A B [] s"
        and R = "measure (\<lambda>s. nat (A + B - current_time s))"])
  show "wf (measure (\<lambda>s. nat (A + B - current_time s)))" by simp
  show "good [] s0 \<and> bounded A B [] s0" using g b by simp
next
  fix s
  assume inv: "good [] s \<and> bounded A B [] s"
    and cond: "processes s \<noteq> [] \<or> ready_queue s \<noteq> []"
  from step[OF _ _ cond] inv
  have n: "good [] (body s)" "bounded A B [] (body s)" "current_time s < current_time (body s)"
    by simp_all
  from pending_work[OF _ cond] inv have "0 < work (processes s @ ready_queue s)" by simp
  with inv have "current_time s < A + B" by (simp add: bounded_def)
  with n show "(good [] (body s) \<and> bounded A B [] (body s)) \<and>
               (body s, s) \<in> measure (\<lambda>s. nat (A + B - current_time s))"
    by simp
qed

lemma loop_final:
  assumes r: "sim_loop body s0 = Some t" and g: "good [] s0" and i: "I [] s0"
    and step: "\<And>s. good [] s \<Longrightarrow> I [] s \<Longrightarrow> processes s \<noteq> [] \<or> ready_queue s \<noteq> [] \<Longrightarrow>
                 good [] (body s) \<and> I [] (body s)"
  shows "good [] t \<and> I [] t \<and> processes t = [] \<and> ready_queue t = []"
  using sim_loop_invariant[OF r, where P = "\<lambda>s. good [] s \<and> I [] s"] g i step by blast

lemma rr_sim_total:
  assumes f: "\<forall>p\<in>set ps. fresh p \<and> 0 < burst_time p" and q: "0 < quantum"
  shows "\<exists>t. rr_sim ps quantum = Some t"
  unfolding rr_sim_def
  using rr_iter_closed[OF bounded_closed, of _ _ _ quantum] q
  by (intro loop_total[OF initial_good[OF f] initial_bounded]) blast

lemma edf_sim_total:
  assumes f: "\<forall>p\<in>set ps. fresh p \<and> 0 < burst_time p"
  shows "\<exists>t. edf_sim ps = Some t"
  unfolding edf_sim_def
  using edf_iter_closed[OF bounded_closed]
  by (intro loop_total[OF initial_good[OF f] initial_bounded]) blast

lemma rr_sim_final:
  assumes f: "\<forall>p\<in>set ps. fresh p \<and> 0 < burst_time p"
    and r: "rr_sim ps quantum = Some t" and c: "step_closed I" and i: "I [] (initial ps)"
  shows "good [] t \<and> I [] t \<and> processes t = [] \<and> ready_queue t = []"
  using rr_iter_closed[OF c, of _ quantum]
  by (intro loop_final[where I = I, OF r[unfolded rr_sim_def] initial_good[OF f] i]) blast

lemma edf_sim_final:
  assumes f: "\<forall>p\<in>set ps. fresh p \<and> 0 < burst_time p"
    and r: "edf_sim ps = Some t" and c: "step_closed I" and i: "I [] (initial ps)"
  shows "good [] t \<and> I [] t \<and> processes t = [] \<and> ready_queue t = []"
  using edf_iter_closed[OF c]
  by (intro loop_final[where I = I, OF r[unfolded edf_sim_def] initial_good[OF f] i]) blast

lemma edf_iter_judged:
  assumes j: "\<forall>p\<in>set (cpu s). judged p"
  shows "population [] (edf_iter s) = population [] s \<and> (\<forall>p\<in>set (cpu (edf_iter s)). judged p)"
proof -
  define s1 where "s1 = admit s"
  have c1: "cpu s1 = cpu s" and n1: "population [] s1 = population [] s"
    by (simp_all add: s1_def)
  show ?thesis
  proof (cases "ready_queue s1 = []")
    case True
    then have "edf_iter s = tick None s1" by (simp add: edf_iter_def s1_def)
    with j c1 n1 show ?thesis by simp
  next
    case False
    define rq where "rq = sort_key deadline (ready_queue s1)"
    define p0 where "p0 = hd rq"
    define rest where "rest = tl rq"
    define s2 where "s2 = s1\<lparr>ready_queue := rest\<rparr>"
    define p1 where "p1 = dispatch (current_time s1) p0"
    define p2 where "p2 = p1\<lparr>remaining_time := remaining_time p1 - 1\<rparr>"
    define s3 where "s3 = admit (tick (Some (name p2)) s2)"
    have "length rq = length (ready_queue s1)" by (simp add: rq_def)
    with False have ne: "rq \<noteq> []" by auto
    have "mset (p0 # rest) = mset (ready_queue s1)"
      using hd_tl_mset[OF ne] by (simp add: p0_def rest_def rq_def)
    then have "mset (map descriptor (p0 # rest)) = mset (map descriptor (ready_queue s1))"
      by (metis mset_map)
    then have n2: "population [p0] s2 = population [] s1"
      by (simp add: population_def s2_def)
    have d2: "descriptor p2 = descriptor p0"
      by (simp add: p2_def p1_def descriptor_def)
    have "population [p2] s3 = population [p2] s2" by (simp add: s3_def)
    moreover have "population [p2] s2 = population [p0] s2"
      using d2 by (simp add: population_def)
    ultimately have n3: "population [p2] s3 = population [p0] s2" by simp
    have c3: "cpu s3 = cpu s" by (simp add: s3_def s2_def c1)
    show ?thesis
    proof (cases "remaining_time p2 = 0")
      case True
      define p3 where "p3 = p2\<lparr>end_time := Some (current_time s3),
          status := Some (if current_time s3 \<le> deadline p2 then ''S'' else ''F'')\<rparr>"
      have e: "edf_iter s = s3\<lparr>cpu := cpu s3 @ [p3]\<rparr>"
        using False True
        by (simp add: edf_iter_def Let_def check_status_def s1_def rq_def p0_def rest_def
              s2_def p1_def p2_def s3_def p3_def)
      have "judged p3" by (simp add: judged_def p3_def)
      moreover have "descriptor p3 = descriptor p2" by (simp add: p3_def descriptor_def)
      then have "population [] (s3\<lparr>cpu := cpu s3 @ [p3]\<rparr>) = population [p2] s3"
        by (simp add: population_def)
      ultimately show ?thesis using e j c3 n3 n2 n1 by simp
    next
      case nz: False
      define s4 where "s4 = admit s3"
      have e: "edf_iter s = s4\<lparr>ready_queue := ready_queue s4 @ [p2]\<rparr>"
        using False nz
        by (simp add: edf_iter_def Let_def s1_def rq_def p0_def rest_def
              s2_def p1_def p2_def s3_def s4_def)
      have "population [] (s4\<lparr>ready_queue := ready_queue s4 @ [p2]\<rparr>) = population [p2] s4"
        by (simp add: population_def)
      moreover have "population [p2] s4 = population [p2] s3" by (simp add: s4_def)
      moreover have "cpu s4 = cpu s" by (simp add: s4_def c3)
      ultimately show ?thesis using e j n3 n2 n1 by simp
    qed
  qed
qed

lemma sorted_by_start_time_Inr:
  assumes "sorted_by_start_time xs = Inr res"
  shows "res = sort_key start_time xs" and "sorted_wrt starts_before res"
proof -
  from assms show r: "res = sort_key start_time xs"
    by (auto simp: sorted_by_start_time_def split: if_splits)
  show "sorted_wrt starts_before res"
  proof (cases "2 \<le> length xs")
    case False
    then have "length res \<le> 1" using r by simp
    then show ?thesis by (cases res) auto
  next
    case True
    with assms have all: "None \<notin> set (map start_time xs)"
      by (auto simp: sorted_by_start_time_def split: if_splits)
    have "sorted (map start_time res)" by (simp add: r)
    then have "sorted_wrt (\<lambda>p q. start_time p \<le> start_time q) res"
      by (simp add: sorted_map)
    moreover have "starts_before p q"
      if "p \<in> set res" "q \<in> set res" "start_time p \<le> start_time q" for p q
    proof -
      from that(1,2) all r obtain a b where "start_time p = Some a" "start_time q = Some b"
        by (cases "start_time p"; cases "start_time q") force+
      with that(3) show ?thesis by (simp add: starts_before_def)
    qed
    ultimately show ?thesis by (rule sorted_wrt_mono_rel[rotated])
  qed
qed

lemma completed_result:
  assumes g: "good [] t" and e: "processes t = []" "ready_queue t = []"
    and n: "population [] t = mset (map descriptor ps)"
  shows "\<exists>res. sorted_by_start_time (cpu t) = Inr res \<and>
           mset (map descriptor res) = mset (map descriptor ps) \<and>
           (\<forall>p\<in>set res. remaining_time p = 0 \<and> start_time p \<noteq> None \<and> end_time p \<noteq> None \<and>
              response_time p \<noteq> None \<and> status p \<noteq> None)"
proof -
  have fin: "remaining_time p = 0 \<and> start_time p \<noteq> None \<and> end_time p \<noteq> None \<and>
             response_time p \<noteq> None \<and> status p \<noteq> None" if "p \<in> set (cpu t)" for p
  proof -
    from g that have "finished (current_time t) p" by (simp add: good_def)
    then show ?thesis by (auto simp: finished_def split: option.splits)
  qed
  then have "None \<notin> set (map start_time (cpu t))" by force
  then have r: "sorted_by_start_time (cpu t) = Inr (sort_key start_time (cpu t))"
    by (simp add: sorted_by_start_time_def)
  have "mset (sort_key start_time (cpu t)) = mset (cpu t)" by simp
  then have "mset (map descriptor (sort_key start_time (cpu t))) = mset (map descriptor (cpu t))"
    by (metis mset_map)
  with n e have "mset (map descriptor (sort_key start_time (cpu t))) = mset (map descriptor ps)"
    by (simp add: population_def)
  with r fin show ?thesis by simp
qed

section \<open>Properties of the schedulers\<close>

text \<open>
  C8. The list that \<open>rr\<close> or \<open>edf\<close> returns is in ascending order of \<open>start_time\<close>: of any
  two of its processes, the earlier in the list has started no later than the other.
\<close>

theorem results_sorted:
  "(rr ps quantum = Some (ps', Inr res) \<longrightarrow> sorted_wrt starts_before res) \<and>
   (edf ps = Some (ps', Inr res) \<longrightarrow> sorted_wrt starts_before res)"
  by (auto simp: rr_def edf_def dest: sorted_by_start_time_Inr(2))

theorem results_sorted_witness:
  "rr [process_init ''P1'' 0 4 10, process_init ''P2'' 1 2 3] 2 =
     Some ([], Inr [process_init ''P1'' 0 4 10
        \<lparr>start_time := Some 0, end_time := Some 6, remaining_time := 0,
         response_time := Some 0, status := Some ''S''\<rparr>,
                    process_init ''P2'' 1 2 3
        \<lparr>start_time := Some 2, end_time := Some 4, remaining_time := 0,
         response_time := Some 1, status := Some ''S''\<rparr>])
   \<and> sorted_wrt starts_before
        [process_init ''P1'' 0 4 10
        \<lparr>start_time := Some 0, end_time := Some 6, remaining_time := 0,
         response_time := Some 0, status := Some ''S''\<rparr>,
         process_init ''P2'' 1 2 3
        \<lparr>start_time := Some 2, end_time := Some 4, remaining_time := 0,
         response_time := Some 1, status := Some ''S''\<rparr>]
   \<and> edf [process_init ''P1'' 0 4 10, process_init ''P2'' 1 2 3] =
     Some ([], Inr [process_init ''P1'' 0 4 10
        \<lparr>start_time := Some 0, end_time := Some 6, remaining_time := 0,
         response_time := Some 0, status := Some ''S''\<rparr>,
                    process_init ''P2'' 1 2 3
        \<lparr>start_time := Some 1, end_time := Some 3, remaining_time := 0,
         response_time := Some 0, status := Some ''S''\<rparr>])
   \<and> sorted_wrt starts_before
        [process_init ''P1'' 0 4 10
        \<lparr>start_time := Some 0, end_time := Some 6, remaining_time := 0,
         response_time := Some 0, status := Some ''S''\<rparr>,
         process_init ''P2'' 1 2 3
        \<lparr>start_time := Some 1, end_time := Some 3, remaining_time := 0,
         response_time := Some 0, status := Some ''S''\<rparr>]"
proof -
  have h1: "rr [process_init ''P1'' 0 4 10, process_init ''P2'' 1 2 3] 2 =
     Some ([], Inr [process_init ''P1'' 0 4 10
        \<lparr>start_time := Some 0, end_time := Some 6, remaining_time := 0,
         response_time := Some 0, status := Some ''S''\<rparr>,
                    process_init ''P2'' 1 2 3
        \<lparr>start_time := Some 2, end_time := Some 4, remaining_time := 0,
         response_time := Some 1, status := Some ''S''\<rparr>])"
    by code_simp
  have h2: "edf [process_init ''P1'' 0 4 10, process_init ''P2'' 1 2 3] =
     Some ([], Inr [process_init ''P1'' 0 4 10
        \<lparr>start_time := Some 0, end_time := Some 6, remaining_time := 0,
         response_time := Some 0, status := Some ''S''\<rparr>,
                    process_init ''P2'' 1 2 3
        \<lparr>start_time := Some 1, end_time := Some 3, remaining_time := 0,
         response_time := Some 0, status := Some ''S''\<rparr>])"
    by code_simp
  from results_sorted[THEN conjunct1, rule_format, OF h1]
       results_sorted[THEN conjunct2, rule_format, OF h2] h1 h2
  show ?thesis by simp
qed

text \<open>
  C3. Every process of the list that \<open>edf\<close> returns has an \<open>end_time\<close>, its status is
  \<open>'S'\<close> exactly when \<open>end_time <= deadline\<close> and \<open>'F'\<close> exactly when
  \<open>end_time > deadline\<close>; and the returned list holds every process of the input, whatever
  its status.
\<close>

theorem edf_status:
  assumes "edf ps = Some (ps', Inr res)"
  shows "mset (map descriptor res) = mset (map descriptor ps) \<and>
         (\<forall>p\<in>set res. \<exists>e. end_time p = Some e \<and>
            (status p = Some ''S'' \<longleftrightarrow> e \<le> deadline p) \<and>
            (status p = Some ''F'' \<longleftrightarrow> deadline p < e))"
proof -
  from assms obtain t where t: "edf_sim ps = Some t" "ps' = processes t"
    and r: "sorted_by_start_time (cpu t) = Inr res"
    by (auto simp: edf_def)
  have "(population [] t = mset (map descriptor ps) \<and> (\<forall>p\<in>set (cpu t). judged p)) \<and>
        processes t = [] \<and> ready_queue t = []"
  proof (rule sim_loop_invariant[OF t(1)[unfolded edf_sim_def],
        where P = "\<lambda>s. population [] s = mset (map descriptor ps) \<and>
                     (\<forall>p\<in>set (cpu s). judged p)"])
    have "cpu (initial ps) = []" by (simp add: initial_def)
    then show "population [] (initial ps) = mset (map descriptor ps) \<and>
               (\<forall>p\<in>set (cpu (initial ps)). judged p)"
      by (simp add: initial_population)
  next
    fix s
    assume "population [] s = mset (map descriptor ps) \<and> (\<forall>p\<in>set (cpu s). judged p)"
    with edf_iter_judged[of s]
    show "population [] (edf_iter s) = mset (map descriptor ps) \<and>
          (\<forall>p\<in>set (cpu (edf_iter s)). judged p)"
      by simp
  qed
  then have n: "mset (map descriptor (cpu t)) = mset (map descriptor ps)"
    and j: "\<forall>p\<in>set (cpu t). judged p"
    by (auto simp: population_def)
  from sorted_by_start_time_Inr(1)[OF r] have res: "res = sort_key start_time (cpu t)" .
  then have "mset res = mset (cpu t)" by simp
  then have "mset (map descriptor res) = mset (map descriptor (cpu t))" by (metis mset_map)
  moreover have "\<exists>e. end_time p = Some e \<and>
            (status p = Some ''S'' \<longleftrightarrow> e \<le> deadline p) \<and>
            (status p = Some ''F'' \<longleftrightarrow> deadline p < e)" if "p \<in> set res" for p
  proof -
    from that res j have "judged p" by simp
    then show ?thesis by (cases "end_time p") (auto simp: judged_def)
  qed
  ultimately show ?thesis using n by simp
qed

theorem edf_status_witness:
  "edf [process_init ''A'' 0 3 2, process_init ''B'' 0 1 5] =
     Some ([], Inr [process_init ''A'' 0 3 2
        \<lparr>start_time := Some 0, end_time := Some 3, remaining_time := 0,
         response_time := Some 0, status := Some ''F''\<rparr>,
                    process_init ''B'' 0 1 5
        \<lparr>start_time := Some 3, end_time := Some 4, remaining_time := 0,
         response_time := Some 3, status := Some ''S''\<rparr>])
   \<and> mset (map descriptor
        [process_init ''A'' 0 3 2
        \<lparr>start_time := Some 0, end_time := Some 3, remaining_time := 0,
         response_time := Some 0, status := Some ''F''\<rparr>,
         process_init ''B'' 0 1 5
        \<lparr>start_time := Some 3, end_time := Some 4, remaining_time := 0,
         response_time := Some 3, status := Some ''S''\<rparr>]) =
     mset (map descriptor [process_init ''A'' 0 3 2, process_init ''B'' 0 1 5])
   \<and> (\<exists>e. Some 3 = Some e \<and> (Some ''F'' = Some ''S'' \<longleftrightarrow> e \<le> (2::int)) \<and>
          (Some ''F'' = Some ''F'' \<longleftrightarrow> 2 < e))"
proof -
  have h: "edf [process_init ''A'' 0 3 2, process_init ''B'' 0 1 5] =
     Some ([], Inr [process_init ''A'' 0 3 2
        \<lparr>start_time := Some 0, end_time := Some 3, remaining_time := 0,
         response_time := Some 0, status := Some ''F''\<rparr>,
                    process_init ''B'' 0 1 5
        \<lparr>start_time := Some 3, end_time := Some 4, remaining_time := 0,
         response_time := Some 3, status := Some ''S''\<rparr>])"
    by code_simp
  from edf_status[OF h] h show ?thesis by (simp add: process_init_def)
qed

text \<open>
  C5. On a list of processes as the constructor builds them, each with a positive
  \<open>burst_time\<close>, \<open>edf\<close> returns, and \<open>rr\<close> returns when the quantum is positive.
\<close>

theorem schedulers_terminate:
  assumes "\<forall>p\<in>set ps. fresh p \<and> 0 < burst_time p"
  shows "(0 < quantum \<longrightarrow> (\<exists>r. rr ps quantum = Some r)) \<and> (\<exists>r. edf ps = Some r)"
  using rr_sim_total[OF assms, of quantum] edf_sim_total[OF assms]
  by (auto simp: rr_def edf_def)

theorem schedulers_terminate_witness:
  "(\<exists>r. rr [process_init ''P1'' 0 4 10, process_init ''P2'' 1 2 3] 2 = Some r) \<and>
   (\<exists>r. edf [process_init ''P1'' 0 4 10, process_init ''P2'' 1 2 3] = Some r)"
proof -
  have h: "\<forall>p\<in>set [process_init ''P1'' 0 4 10, process_init ''P2'' 1 2 3]. fresh p \<and> 0 < burst_time p"
    by (simp add: fresh_def process_init_def)
  from schedulers_terminate[OF h, of 2] show ?thesis by simp
qed

text \<open>
  C10. On such a list, the list returned by \<open>rr\<close> (with a positive quantum) or \<open>edf\<close>
  holds exactly the processes of the input, each once; every returned process has
  \<open>remaining_time = 0\<close> and its \<open>start_time\<close>, \<open>end_time\<close>, \<open>response_time\<close> and
  \<open>status\<close> set; and the caller's list is left empty.
\<close>

theorem schedulers_complete:
  assumes f: "\<forall>p\<in>set ps. fresh p \<and> 0 < burst_time p"
  shows "(0 < quantum \<longrightarrow>
           (\<exists>res. rr ps quantum = Some ([], Inr res) \<and>
              mset (map descriptor res) = mset (map descriptor ps) \<and>
              (\<forall>p\<in>set res. remaining_time p = 0 \<and> start_time p \<noteq> None \<and>
                 end_time p \<noteq> None \<and> response_time p \<noteq> None \<and> status p \<noteq> None))) \<and>
         (\<exists>res. edf ps = Some ([], Inr res) \<and>
              mset (map descriptor res) = mset (map descriptor ps) \<and>
              (\<forall>p\<in>set res. remaining_time p = 0 \<and> start_time p \<noteq> None \<and>
                 end_time p \<noteq> None \<and> response_time p \<noteq> None \<and> status p \<noteq> None))"
proof (intro conjI impI)
  assume q: "0 < quantum"
  from rr_sim_total[OF f q] obtain t where t: "rr_sim ps quantum = Some t" ..
  from rr_sim_final[OF f t population_closed initial_population]
  have "good [] t" "processes t = []" "ready_queue t = []"
    "population [] t = mset (map descriptor ps)" by simp_all
  from completed_result[OF this] t
  show "\<exists>res. rr ps quantum = Some ([], Inr res) \<and>
              mset (map descriptor res) = mset (map descriptor ps) \<and>
              (\<forall>p\<in>set res. remaining_time p = 0 \<and> start_time p \<noteq> None \<and>
                 end_time p \<noteq> None \<and> response_time p \<noteq> None \<and> status p \<noteq> None)"
    using \<open>processes t = []\<close> by (auto simp: rr_def)
next
  from edf_sim_total[OF f] obtain t where t: "edf_sim ps = Some t" ..
  from edf_sim_final[OF f t population_closed initial_population]
  have "good [] t" "processes t = []" "ready_queue t = []"
    "population [] t = mset (map descriptor ps)" by simp_all
  from completed_result[OF this] t
  show "\<exists>res. edf ps = Some ([], Inr res) \<and>
              mset (map descriptor res) = mset (map descriptor ps) \<and>
              (\<forall>p\<in>set res. remaining_time p = 0 \<and> start_time p \<noteq> None \<and>
                 end_time p \<noteq> None \<and> response_time p \<noteq> None \<and> status p \<noteq> None)"
    using \<open>processes t = []\<close> by (auto simp: edf_def)
qed

theorem schedulers_complete_witness:
  "(\<exists>res. rr [process_init ''P1'' 0 4 10, process_init ''P2'' 1 2 3] 2 = Some ([], Inr res) \<and>
      mset (map descriptor res) =
        mset (map descriptor [process_init ''P1'' 0 4 10, process_init ''P2'' 1 2 3]) \<and>
      (\<forall>p\<in>set res. remaining_time p = 0 \<and> start_time p \<noteq> None \<and>
         end_time p \<noteq> None \<and> response_time p \<noteq> None \<and> status p \<noteq> None)) \<and>
   (\<exists>res. edf [process_init ''P1'' 0 4 10, process_init ''P2'' 1 2 3] = Some ([], Inr res) \<and>
      mset (map descriptor res) =
        mset (map descriptor [process_init ''P1'' 0 4 10, process_init ''P2'' 1 2 3]) \<and>
      (\<forall>p\<in>set res. remaining_time p = 0 \<and> start_time p \<noteq> None \<and>
         end_time p \<noteq> None \<and> response_time p \<noteq> None \<and> status p \<noteq> None))"
proof -
  have h: "\<forall>p\<in>set [process_init ''P1'' 0 4 10, process_init ''P2'' 1 2 3]. fresh p \<and> 0 < burst_time p"
    by (simp add: fresh_def process_init_def)
  have q: "(0::int) < 2" by simp
  from schedulers_complete[OF h, THEN conjunct1, rule_format, OF q]
       schedulers_complete[OF h, THEN conjunct2]
  show ?thesis by (rule conjI)
qed

section \<open>The history of the CPU\<close>

lemma tracked_append:
  assumes "tracked hist p" and "w \<noteq> Some (name p)"
    and "\<And>st. start_time p = Some st \<Longrightarrow> nat st \<le> length hist"
  shows "tracked (hist @ [w]) p"
  using assms by (auto simp: tracked_def split: option.splits)

lemma slice_append:
  "0 \<le> a \<Longrightarrow> a \<le> b \<Longrightarrow> nat b \<le> length xs \<Longrightarrow> slice (xs @ ys) a b = slice xs a b"
  by (simp add: slice_def nat_diff_distrib)

lemma recorded_append:
  assumes "recorded hist p"
    and "\<And>st e. start_time p = Some st \<Longrightarrow> end_time p = Some e \<Longrightarrow>
           0 \<le> st \<and> st \<le> e \<and> nat e \<le> length hist"
  shows "recorded (hist @ [w]) p"
  using assms by (auto simp: recorded_def slice_append split: option.splits)

lemma live_started:
  assumes "live t p" and "start_time p = Some st"
  shows "0 \<le> st" and "st \<le> t"
  using assms by (auto simp: live_def split: option.splits)

lemma finished_ended:
  assumes "finished t p" and "start_time p = Some st" and "end_time p = Some e"
  shows "0 \<le> st \<and> st \<le> e \<and> e \<le> t"
  using assms by (auto simp: finished_def split: option.splits)

lemma good_pool_unstarted: "good run s \<Longrightarrow> p \<in> set (processes s) \<Longrightarrow> start_time p = None"
  by (simp add: good_def pooled_def fresh_fields)

lemma traced_tick:
  assumes g: "good run s" and t: "traced run s"
    and w: "\<forall>p\<in>set (processes s @ ready_queue s @ run). w \<noteq> Some (name p)"
  shows "traced run (tick w s)"
proof -
  have len: "length (timeline s) = nat (current_time s)" using t by (simp add: traced_def)
  from g have t0: "0 \<le> current_time s" by (simp add: good_def)
  have a: "tracked (timeline s @ [w]) p" if p: "p \<in> set (processes s @ ready_queue s @ run)" for p
  proof (rule tracked_append)
    show "tracked (timeline s) p" using t p by (simp add: traced_def)
    show "w \<noteq> Some (name p)" using w p by simp
    fix st assume st: "start_time p = Some st"
    with p g good_pool_unstarted[OF g] have "live (current_time s) p"
      by (auto simp: good_def queued_def)
    from live_started[OF this st] len show "nat st \<le> length (timeline s)" by simp
  qed
  have b: "recorded (timeline s @ [w]) p" if p: "p \<in> set (cpu s)" for p
  proof (rule recorded_append)
    show "recorded (timeline s) p" using t p by (simp add: traced_def)
    fix st e assume "start_time p = Some st" "end_time p = Some e"
    with finished_ended[of "current_time s" p st e] g p len
    show "0 \<le> st \<and> st \<le> e \<and> nat e \<le> length (timeline s)"
      by (auto simp: good_def)
  qed
  from t t0 len have "length (timeline (tick w s)) = nat (current_time (tick w s))"
    by (simp add: nat_add_distrib)
  moreover have "distinct (map name (processes (tick w s) @ ready_queue (tick w s) @ run @
      cpu (tick w s)))" using t by (simp add: traced_def)
  ultimately show ?thesis using a b by (simp add: traced_def)
qed

lemma distinct_names_mset:
  "mset xs = mset ys \<Longrightarrow> distinct (map name xs) = distinct (map name ys)"
proof -
  assume "mset xs = mset ys"
  then have "mset (map name xs) = mset (map name ys)" by (metis mset_map)
  then show ?thesis by (rule mset_eq_imp_distinct_iff)
qed

lemma traced_admit: "traced run s \<Longrightarrow> traced run (admit s)"
proof -
  assume t: "traced run s"
  have m: "mset (processes (admit s) @ ready_queue (admit s) @ run @ cpu s) =
           mset (processes s @ ready_queue s @ run @ cpu s)"
    using admit_mset[of s] by simp
  have s: "set (processes (admit s)) \<union> set (ready_queue (admit s)) =
           set (processes s) \<union> set (ready_queue s)"
    using admit_mset[of s] by (metis set_append set_mset_mset)
  from distinct_names_mset[OF m] t
  have "distinct (map name (processes (admit s) @ ready_queue (admit s) @ run @ cpu s))"
    by (simp add: traced_def)
  moreover have "\<forall>p\<in>set (processes (admit s)) \<union> set (ready_queue (admit s)) \<union> set run.
      tracked (timeline s) p"
    using t unfolding s by (auto simp: traced_def)
  ultimately show ?thesis using t by (simp add: traced_def Ball_def Un_iff)
qed

lemma good_drop: "good run s \<Longrightarrow> good [] s"
  by (simp add: good_def)

lemma traced_drop: "traced run s \<Longrightarrow> traced [] s"
  by (auto simp: traced_def)

lemma traced_add:
  "traced [] s \<Longrightarrow> tracked (timeline s) p \<Longrightarrow>
   distinct (map name (processes s @ ready_queue s @ [p] @ cpu s)) \<Longrightarrow> traced [p] s"
  by (auto simp: traced_def)

lemma traced_names:
  "traced run s \<Longrightarrow> distinct (map name (processes s @ ready_queue s @ run @ cpu s))"
  by (simp add: traced_def)

lemma traced_pop:
  assumes t: "traced [] s" and m: "mset (p # rest) = mset (ready_queue s)"
  shows "traced [p] (s\<lparr>ready_queue := rest\<rparr>)"
proof -
  from m have "mset (processes s @ rest @ [p] @ cpu s) = mset (processes s @ ready_queue s @ cpu s)"
    by simp
  from distinct_names_mset[OF this] t
  have "distinct (map name (processes s @ rest @ [p] @ cpu s))" by (simp add: traced_def)
  moreover from m have "set (p # rest) = set (ready_queue s)" by (metis set_mset_mset)
  ultimately show ?thesis using t by (auto simp: traced_def)
qed

lemma tracked_dispatch:
  assumes "tracked hist p" and "live t p"
  shows "tracked hist (dispatch t p)"
proof (cases "response_time p")
  case None
  with assms(2) have "remaining_time p = burst_time p" by (simp add: live_def)
  with assms(1) have "count_list hist (Some (name p)) = 0" by (simp add: tracked_def)
  then have "Some (name p) \<notin> set hist" by (simp add: count_list_0_iff)
  then have "Some (name p) \<notin> set (take (nat t) hist)" by (auto dest: in_set_takeD)
  with assms(1) None show ?thesis by (simp add: tracked_def dispatch_def)
next
  case (Some r)
  with assms(1) show ?thesis by (simp add: dispatch_def)
qed

lemma traced_dispatch:
  assumes g: "good [p] s" and t: "traced [p] s"
  shows "traced [dispatch (current_time s) p] s"
proof -
  from g have "live (current_time s) p" by (simp add: good_def)
  with t have "tracked (timeline s) (dispatch (current_time s) p)"
    by (intro tracked_dispatch) (simp_all add: traced_def)
  with t show ?thesis by (simp add: traced_def)
qed

lemma traced_exec:
  assumes g: "good [p] s" and t: "traced [p] s"
    and r: "response_time p \<noteq> None" and pos: "0 < remaining_time p"
  shows "traced [p\<lparr>remaining_time := remaining_time p - 1\<rparr>] (tick (Some (name p)) s)"
proof (rule traced_add)
  from traced_names[OF t]
  have other: "\<forall>q\<in>set (processes s @ ready_queue s @ []). Some (name p) \<noteq> Some (name q)"
    by auto
  from traced_tick[OF good_drop[OF g] traced_drop[OF t] other]
  show "traced [] (tick (Some (name p)) s)" .
  from g have l: "live (current_time s) p" by (simp add: good_def)
  from t have len: "length (timeline s) = nat (current_time s)" by (simp add: traced_def)
  from r l obtain st where st: "start_time p = Some st"
    by (auto simp: live_def split: option.splits)
  from live_started[OF l st] len have "nat st \<le> length (timeline s)" by simp
  moreover from t have "tracked (timeline s) p" by (simp add: traced_def)
  moreover from l have "remaining_time p \<le> burst_time p" by (simp add: live_def)
  ultimately
  show "tracked (timeline (tick (Some (name p)) s)) (p\<lparr>remaining_time := remaining_time p - 1\<rparr>)"
    using st by (simp add: tracked_def nat_diff_distrib)
  from traced_names[OF t]
  show "distinct (map name (processes (tick (Some (name p)) s) @
          ready_queue (tick (Some (name p)) s) @
          [p\<lparr>remaining_time := remaining_time p - 1\<rparr>] @ cpu (tick (Some (name p)) s)))"
    by simp
qed

lemma count_list_split:
  "count_list xs x = count_list (take n xs) x + count_list (drop n xs) x"
  by (metis append_take_drop_id count_list_append)

lemma traced_finish:
  assumes g: "good [p] s" and t: "traced [p] s"
    and r: "response_time p \<noteq> None" and z: "remaining_time p = 0"
  shows "traced [] (s\<lparr>cpu := cpu s @
           [p\<lparr>end_time := Some (current_time s), status := Some x\<rparr>]\<rparr>)"
proof -
  from g have l: "live (current_time s) p" by (simp add: good_def)
  from t have len: "length (timeline s) = nat (current_time s)" by (simp add: traced_def)
  from r l obtain st where st: "start_time p = Some st"
    by (auto simp: live_def split: option.splits)
  note b = live_started[OF l st]
  from t have tr: "tracked (timeline s) p" by (simp add: traced_def)
  with st have out: "count_list (take (nat st) (timeline s)) (Some (name p)) = 0"
    by (simp add: tracked_def count_list_0_iff)
  have "slice (timeline s) st (current_time s) = drop (nat st) (timeline s)"
    using b len by (simp add: slice_def nat_diff_distrib)
  with count_list_split[of "timeline s" "Some (name p)" "nat st"] out tr z
  have "count_list (slice (timeline s) st (current_time s)) (Some (name p)) =
        nat (burst_time p)"
    by (simp add: tracked_def)
  with st have "recorded (timeline s) (p\<lparr>end_time := Some (current_time s), status := Some x\<rparr>)"
    by (simp add: recorded_def)
  with t show ?thesis by (auto simp: traced_def)
qed

lemma traced_requeue:
  "traced [p] s \<Longrightarrow> traced [] (s\<lparr>ready_queue := ready_queue s @ [p]\<rparr>)"
  by (auto simp: traced_def)

lemma traced_closed: "step_closed traced"
proof -
  have idle: "traced [] (tick None s)" if "good [] s" "traced [] s" for s
    using traced_tick[OF that, of None] by simp
  show ?thesis
    by (simp add: step_closed_def traced_admit idle traced_pop traced_dispatch traced_exec
          traced_finish traced_requeue)
qed

lemma initial_traced:
  assumes f: "\<forall>p\<in>set ps. fresh p \<and> 0 < burst_time p" and d: "distinct (map name ps)"
  shows "traced [] (initial ps)"
proof -
  have "mset (sort_key arrival_time ps) = mset ps" by simp
  from distinct_names_mset[OF this] d
  have "distinct (map name (sort_key arrival_time ps))" by simp
  moreover have "tracked [] p" if "p \<in> set ps" for p
    using that f by (simp add: tracked_def fresh_fields)
  ultimately show ?thesis by (simp add: traced_def initial_def)
qed

lemma count_list_full:
  "count_list xs x = length xs \<longleftrightarrow> list_all (\<lambda>y. y = x) xs"
proof (induction xs)
  case Nil
  then show ?case by simp
next
  case (Cons a xs)
  have "count_list xs x \<le> length xs" by (rule count_le_length)
  with Cons show ?case by auto
qed

lemma uninterrupted_exact:
  assumes g: "good [] t" and tr: "traced [] t" and p: "p \<in> set (cpu t)"
    and st: "start_time p = Some st" and e: "end_time p = Some e"
  shows "uninterrupted (timeline t) p \<longleftrightarrow> e - st = burst_time p"
proof -
  from g p have f: "finished (current_time t) p" by (simp add: good_def)
  from finished_ended[OF f st e] have b: "0 \<le> st" "st \<le> e" "e \<le> current_time t" by simp_all
  from f st e have nn: "0 \<le> burst_time p" by (simp add: finished_def)
  from tr have len: "length (timeline t) = nat (current_time t)" by (simp add: traced_def)
  from tr p have "recorded (timeline t) p" by (simp add: traced_def)
  with st e have c: "count_list (slice (timeline t) st e) (Some (name p)) = nat (burst_time p)"
    by (simp add: recorded_def)
  have l: "length (slice (timeline t) st e) = nat (e - st)"
    using b len by (simp add: slice_def)
  have "uninterrupted (timeline t) p \<longleftrightarrow>
        count_list (slice (timeline t) st e) (Some (name p)) = length (slice (timeline t) st e)"
    using st e by (simp add: uninterrupted_def count_list_full)
  also have "\<dots> \<longleftrightarrow> e - st = burst_time p"
    using c l b nn by auto
  finally show ?thesis .
qed

lemma lifetime_result:
  assumes g: "good [] t" and p: "p \<in> set (cpu t)"
    and tr: "distinct (map name ps) \<Longrightarrow> traced [] t"
  shows "\<exists>st e. start_time p = Some st \<and> end_time p = Some e \<and> arrival_time p \<le> st \<and>
           st \<le> e \<and> burst_time p \<le> e - st \<and>
           (distinct (map name ps) \<longrightarrow>
              (uninterrupted (timeline t) p \<longleftrightarrow> e - st = burst_time p))"
proof -
  from g p have f: "finished (current_time t) p" by (simp add: good_def)
  then obtain st e where se: "start_time p = Some st" "end_time p = Some e"
    by (auto simp: finished_def split: option.splits)
  from f se have "arrival_time p \<le> st" "st \<le> e" "burst_time p \<le> e - st"
    by (auto simp: finished_def)
  moreover have "uninterrupted (timeline t) p \<longleftrightarrow> e - st = burst_time p"
    if "distinct (map name ps)"
    using uninterrupted_exact[OF g tr[OF that] p se] .
  ultimately show ?thesis using se by simp
qed

text \<open>
  C6. On a list of processes as the constructor builds them, each with a positive
  \<open>burst_time\<close>, every process \<open>p\<close> that \<open>rr\<close> (with a positive quantum) or \<open>edf\<close> returns
  has \<open>arrival_time <= start_time <= end_time\<close> and \<open>end_time - start_time >= burst_time\<close>.
  When the names of the processes are distinct, \<open>end_time - start_time = burst_time\<close>
  holds exactly for the processes that ran in one uninterrupted stretch.
\<close>

theorem lifetimes:
  assumes f: "\<forall>p\<in>set ps. fresh p \<and> 0 < burst_time p"
  shows "(0 < quantum \<longrightarrow>
           (\<exists>t res. rr_sim ps quantum = Some t \<and> rr ps quantum = Some ([], Inr res) \<and>
              (\<forall>p\<in>set res. \<exists>st e. start_time p = Some st \<and> end_time p = Some e \<and>
                 arrival_time p \<le> st \<and> st \<le> e \<and> burst_time p \<le> e - st \<and>
                 (distinct (map name ps) \<longrightarrow>
                    (uninterrupted (timeline t) p \<longleftrightarrow> e - st = burst_time p))))) \<and>
         (\<exists>t res. edf_sim ps = Some t \<and> edf ps = Some ([], Inr res) \<and>
              (\<forall>p\<in>set res. \<exists>st e. start_time p = Some st \<and> end_time p = Some e \<and>
                 arrival_time p \<le> st \<and> st \<le> e \<and> burst_time p \<le> e - st \<and>
                 (distinct (map name ps) \<longrightarrow>
                    (uninterrupted (timeline t) p \<longleftrightarrow> e - st = burst_time p))))"
proof (intro conjI impI)
  assume q: "0 < quantum"
  from rr_sim_total[OF f q] obtain t where t: "rr_sim ps quantum = Some t" ..
  from rr_sim_final[OF f t population_closed initial_population]
  have g: "good [] t" and e: "processes t = []" "ready_queue t = []"
    and n: "population [] t = mset (map descriptor ps)" by simp_all
  have tr: "traced [] t" if "distinct (map name ps)"
    using rr_sim_final[OF f t traced_closed initial_traced[OF f that]] by simp
  from completed_result[OF g e n] obtain res where
    res: "sorted_by_start_time (cpu t) = Inr res" by blast
  from sorted_by_start_time_Inr(1)[OF res] have sr: "set res = set (cpu t)" by simp
  have "\<exists>st e. start_time p = Some st \<and> end_time p = Some e \<and>
                 arrival_time p \<le> st \<and> st \<le> e \<and> burst_time p \<le> e - st \<and>
                 (distinct (map name ps) \<longrightarrow>
                    (uninterrupted (timeline t) p \<longleftrightarrow> e - st = burst_time p))" if "p \<in> set res" for p
    using that sr by (intro lifetime_result[where ps = ps, OF g _ tr]) simp_all
  with t res e
  show "\<exists>t res. rr_sim ps quantum = Some t \<and> rr ps quantum = Some ([], Inr res) \<and>
              (\<forall>p\<in>set res. \<exists>st e. start_time p = Some st \<and> end_time p = Some e \<and>
                 arrival_time p \<le> st \<and> st \<le> e \<and> burst_time p \<le> e - st \<and>
                 (distinct (map name ps) \<longrightarrow>
                    (uninterrupted (timeline t) p \<longleftrightarrow> e - st = burst_time p)))"
    by (intro exI[of _ t] exI[of _ res]) (simp add: rr_def)
next
  from edf_sim_total[OF f] obtain t where t: "edf_sim ps = Some t" ..
  from edf_sim_final[OF f t population_closed initial_population]
  have g: "good [] t" and e: "processes t = []" "ready_queue t = []"
    and n: "population [] t = mset (map descriptor ps)" by simp_all
  have tr: "traced [] t" if "distinct (map name ps)"
    using edf_sim_final[OF f t traced_closed initial_traced[OF f that]] by simp
  from completed_result[OF g e n] obtain res where
    res: "sorted_by_start_time (cpu t) = Inr res" by blast
  from sorted_by_start_time_Inr(1)[OF res] have sr: "set res = set (cpu t)" by simp
  have "\<exists>st e. start_time p = Some st \<and> end_time p = Some e \<and>
                 arrival_time p \<le> st \<and> st \<le> e \<and> burst_time p \<le> e - st \<and>
                 (distinct (map name ps) \<longrightarrow>
                    (uninterrupted (timeline t) p \<longleftrightarrow> e - st = burst_time p))" if "p \<in> set res" for p
    using that sr by (intro lifetime_result[where ps = ps, OF g _ tr]) simp_all
  with t res e
  show "\<exists>t res. edf_sim ps = Some t \<and> edf ps = Some ([], Inr res) \<and>
              (\<forall>p\<in>set res. \<exists>st e. start_time p = Some st \<and> end_time p = Some e \<and>
                 arrival_time p \<le> st \<and> st \<le> e \<and> burst_time p \<le> e - st \<and>
                 (distinct (map name ps) \<longrightarrow>
                    (uninterrupted (timeline t) p \<longleftrightarrow> e - st = burst_time p)))"
    by (intro exI[of _ t] exI[of _ res]) (simp add: edf_def)
qed

theorem lifetimes_witness:
  "(\<exists>t res. rr_sim [process_init ''P1'' 0 4 10, process_init ''P2'' 1 2 3] 2 = Some t \<and> rr [process_init ''P1'' 0 4 10, process_init ''P2'' 1 2 3] 2 = Some ([], Inr res) \<and>
      (\<forall>p\<in>set res. \<exists>st e. start_time p = Some st \<and> end_time p = Some e \<and>
         arrival_time p \<le> st \<and> st \<le> e \<and> burst_time p \<le> e - st \<and>
         (distinct (map name [process_init ''P1'' 0 4 10, process_init ''P2'' 1 2 3]) \<longrightarrow>
            (uninterrupted (timeline t) p \<longleftrightarrow> e - st = burst_time p)))) \<and>
   (\<exists>t res. edf_sim [process_init ''P1'' 0 4 10, process_init ''P2'' 1 2 3] = Some t \<and> edf [process_init ''P1'' 0 4 10, process_init ''P2'' 1 2 3] = Some ([], Inr res) \<and>
      (\<forall>p\<in>set res. \<exists>st e. start_time p = Some st \<and> end_time p = Some e \<and>
         arrival_time p \<le> st \<and> st \<le> e \<and> burst_time p \<le> e - st \<and>
         (distinct (map name [process_init ''P1'' 0 4 10, process_init ''P2'' 1 2 3]) \<longrightarrow>
            (uninterrupted (timeline t) p \<longleftrightarrow> e - st = burst_time p)))) \<and>
   distinct (map name [process_init ''P1'' 0 4 10, process_init ''P2'' 1 2 3]) \<and>
   uninterrupted [Some ''P1'', Some ''P1'', Some ''P2'', Some ''P2'', Some ''P1'', Some ''P1'']
     (process_init ''P2'' 1 2 3
        \<lparr>start_time := Some 2, end_time := Some 4, remaining_time := 0,
         response_time := Some 1, status := Some ''S''\<rparr>)"
proof -
  have h: "\<forall>p\<in>set [process_init ''P1'' 0 4 10, process_init ''P2'' 1 2 3]. fresh p \<and> 0 < burst_time p"
    by (simp add: fresh_def process_init_def)
  have q: "(0::int) < 2" by simp
  have u: "distinct (map name [process_init ''P1'' 0 4 10, process_init ''P2'' 1 2 3]) \<and>
   uninterrupted [Some ''P1'', Some ''P1'', Some ''P2'', Some ''P2'', Some ''P1'', Some ''P1'']
     (process_init ''P2'' 1 2 3
        \<lparr>start_time := Some 2, end_time := Some 4, remaining_time := 0,
         response_time := Some 1, status := Some ''S''\<rparr>)"
    by (simp add: uninterrupted_def slice_def process_init_def)
  from lifetimes[OF h, THEN conjunct1, rule_format, OF q]
       lifetimes[OF h, THEN conjunct2] u
  show ?thesis by (intro conjI) simp_all
qed

end
